theory Spec2Isabelle
  imports Main
begin

section \<open>Values of the plugin-option tree\<close>

text \<open>
  The resolution code of \<^verbatim>\<open>packages/vite/src/node/plugin.ts\<close> inspects its
  elements at run time (\<^verbatim>\<open>typeof p === 'function'\<close>, \<^verbatim>\<open>Array.isArray\<close>,
  \<^verbatim>\<open>Boolean\<close>, \<^verbatim>\<open>v?.then\<close>, \<^verbatim>\<open>v?.split\<close>), so the model has
  one datatype of JavaScript values with exactly the shapes those tests tell apart.

  A function object is known by its identity; what it does when called is given by a
  table of bodies (see \<open>invoke\<close>). A plugin object carries its reference identity, so that
  two instances with equal configuration are still different values.
\<close>

type_synonym fid = nat
type_synonym err = string

datatype mode = Dev | Build | Scan

record plugin_env =
  env_name :: string
  env_mode :: mode

record plugin =
  ident :: nat
  plugin_name :: string
  sharedDuringBuild :: "bool option"

datatype val =
    VUndefined
  | VNull
  | VBool bool
  | VNum int
  | VStr string
  | VPlugin plugin
  | VFun fid "bool option"
  | VArr "val list"
  | VPromise val
  | VRejected err

text \<open>
  \<open>VFun f sh\<close> is an \<^verbatim>\<open>IsolatedPluginConstructor\<close>: the function \<open>f\<close> with its
  optional \<^verbatim>\<open>sharedDuringBuild\<close> property \<open>sh\<close>. \<open>VPromise v\<close> is a promise that
  fulfils with \<open>v\<close>, \<open>VRejected e\<close> one that rejects with \<open>e\<close>. Every promise of
  the model settles: one that stays pending for ever is not represented. Numbers are the
  integers, with \<open>0\<close> the falsy one.
\<close>

datatype outcome = Return val | Throw err

subsection \<open>The run-time tests of the source\<close>

text \<open>\<^verbatim>\<open>Boolean(v)\<close>, the argument of \<^verbatim>\<open>.filter(Boolean)\<close> and the test
  \<^verbatim>\<open>if (isolatedPlugin)\<close>.\<close>

fun truthy :: "val \<Rightarrow> bool" where
  "truthy VUndefined = False"
| "truthy VNull = False"
| "truthy (VBool b) = b"
| "truthy (VNum n) = (n \<noteq> 0)"
| "truthy (VStr s) = (s \<noteq> [])"
| "truthy (VPlugin p) = True"
| "truthy (VFun f sh) = True"
| "truthy (VArr xs) = True"
| "truthy (VPromise v) = True"
| "truthy (VRejected e) = True"

text \<open>\<^verbatim>\<open>typeof p === 'function'\<close>\<close>

fun is_function :: "val \<Rightarrow> bool" where
  "is_function (VFun f sh) = True"
| "is_function v = False"

text \<open>\<^verbatim>\<open>Array.isArray(plugins)\<close>\<close>

fun is_array :: "val \<Rightarrow> bool" where
  "is_array (VArr xs) = True"
| "is_array v = False"

text \<open>
  \<^verbatim>\<open>v?.then\<close> is truthy: promises have the method; \<^verbatim>\<open>null\<close> and
  \<^verbatim>\<open>undefined\<close> are stopped by \<^verbatim>\<open>?.\<close>; numbers, booleans, strings, arrays,
  functions and objects of the declared plugin type have no such member.
\<close>

fun has_then :: "val \<Rightarrow> bool" where
  "has_then (VPromise v) = True"
| "has_then (VRejected e) = True"
| "has_then v = False"

text \<open>
  \<^verbatim>\<open>v?.split\<close> is truthy: every string has \<^verbatim>\<open>String.prototype.split\<close>; no other
  shape of value has a member of that name.
\<close>

fun has_split :: "val \<Rightarrow> bool" where
  "has_split (VStr s) = True"
| "has_split v = False"

subsection \<open>Awaiting, flattening, filtering\<close>

text \<open>\<^verbatim>\<open>await v\<close>: a value that is no promise is its own result; a promise gives
  what it settles to, and a rejection is raised as an error.\<close>

fun await :: "val \<Rightarrow> err + val" where
  "await (VPromise v) = await v"
| "await (VRejected e) = Inl e"
| "await v = Inr v"

text \<open>\<^verbatim>\<open>await Promise.all(xs)\<close>: the array of the settled values, or a rejection.
  The model has no clock: a promise is held as what it settles to, so when several promises of
  one list reject, \<open>promise_all\<close> reports the first in the order of the list, where
  \<^verbatim>\<open>Promise.all\<close> reports the one that rejects first in time. Whether the call fails
  is the same in both; which reason it fails with is not, and no statement below depends on
  it: the reason is only ever said to be that of some rejected promise of the input
  (\<open>promise_all_Inl\<close>), or is that of the only rejection there is.\<close>

fun promise_all :: "val list \<Rightarrow> err + val list" where
  "promise_all [] = Inr []"
| "promise_all (x # xs) =
     (case await x of
        Inl e \<Rightarrow> Inl e
      | Inr v \<Rightarrow> (case promise_all xs of Inl e \<Rightarrow> Inl e | Inr vs \<Rightarrow> Inr (v # vs)))"

text \<open>\<^verbatim>\<open>xs.flat(Infinity)\<close>: arrays nested in arrays are spliced in place, at any
  depth; a promise holding an array is not an array.\<close>

fun flat_inf :: "val list \<Rightarrow> val list" where
  "flat_inf [] = []"
| "flat_inf (VArr ys # xs) = flat_inf ys @ flat_inf xs"
| "flat_inf (x # xs) = x # flat_inf xs"

section \<open>The heap and constructor invocation\<close>

text \<open>
  The state threaded through resolution: the array \<^verbatim>\<open>environment.config.plugins\<close>,
  the part of the world that constructors read and write, and the trace of the constructor
  invocations made so far (callee, argument, outcome), oldest first.

  A constructor is called with the environment handle; the table \<open>body\<close> gives, for each
  function object, its outcome and the world it leaves. The handle's config is a read-only
  snapshot for constructors, so their effects are confined to \<open>world\<close>. A call takes
  effect as a whole where it is made: the interleaving of the bodies of several async
  constructors of one pass is not represented.
\<close>

record 'w heap =
  config_plugins :: "val list"
  world :: 'w
  invoked :: "(fid \<times> plugin_env \<times> outcome) list"

type_synonym 'w bodies = "fid \<Rightarrow> plugin_env \<Rightarrow> 'w \<Rightarrow> outcome \<times> 'w"

definition invoke :: "'w bodies \<Rightarrow> fid \<Rightarrow> plugin_env \<Rightarrow> 'w heap \<Rightarrow> outcome \<times> 'w heap" where
  "invoke body f env s =
     (case body f env (world s) of
        (out, w') \<Rightarrow> (out, s\<lparr>world := w', invoked := invoked s @ [(f, env, out)]\<rparr>))"

section \<open>asyncFlattenIsolatedPlugin\<close>

text \<open>
  \<^verbatim>\<open>plugins.map((p: any) => (typeof p === 'function' ? p(environment) : p))\<close>:
  the callback runs on the elements from left to right; a function element is called, and an
  exception it throws ends the whole \<^verbatim>\<open>map\<close>.
\<close>

fun map_call :: "'w bodies \<Rightarrow> plugin_env \<Rightarrow> val list \<Rightarrow> 'w heap \<Rightarrow> (err + val list) \<times> 'w heap" where
  "map_call body env [] s = (Inr [], s)"
| "map_call body env (VFun f sh # ps) s =
     (case invoke body f env s of
        (Throw e, s1) \<Rightarrow> (Inl e, s1)
      | (Return r, s1) \<Rightarrow>
          (case map_call body env ps s1 of
             (Inl e, s2) \<Rightarrow> (Inl e, s2)
           | (Inr rs, s2) \<Rightarrow> (Inr (r # rs), s2)))"
| "map_call body env (p # ps) s =
     (case map_call body env ps s of
        (Inl e, s2) \<Rightarrow> (Inl e, s2)
      | (Inr rs, s2) \<Rightarrow> (Inr (p # rs), s2))"

text \<open>The test of the \<^verbatim>\<open>do ... while\<close>:
  \<^verbatim>\<open>plugins.some((v: any) => v?.then || v?.split)\<close>.\<close>

definition loop_again :: "val list \<Rightarrow> bool" where
  "loop_again plugins = list_ex (\<lambda>v. has_then v \<or> has_split v) plugins"

text \<open>
  One run of the loop body:
  \<^verbatim>\<open>(await Promise.all(plugins.map(...))).flat(Infinity).filter(Boolean)\<close>.
\<close>

definition flatten_pass ::
  "'w bodies \<Rightarrow> plugin_env \<Rightarrow> val list \<Rightarrow> 'w heap \<Rightarrow> (err + val list) \<times> 'w heap" where
  "flatten_pass body env plugins s =
     (case map_call body env plugins s of
        (Inl e, s1) \<Rightarrow> (Inl e, s1)
      | (Inr rs, s1) \<Rightarrow>
          (case promise_all rs of
             Inl e \<Rightarrow> (Inl e, s1)
           | Inr vs \<Rightarrow> (Inr (filter truthy (flat_inf vs)), s1)))"

text \<open>
  The \<^verbatim>\<open>do ... while\<close> loop. It may run forever, so the model is a partial
  function: \<open>None\<close> is a call that never settles, \<open>Some (Inl e, s)\<close> a rejection with
  \<open>e\<close>, \<open>Some (Inr ps, s)\<close> the returned array.
\<close>

partial_function (option) flatten_loop ::
  "'w bodies \<Rightarrow> plugin_env \<Rightarrow> val list \<Rightarrow> 'w heap \<Rightarrow> ((err + val list) \<times> 'w heap) option" where
  "flatten_loop body env plugins s =
     (case flatten_pass body env plugins s of
        (Inl e, s1) \<Rightarrow> Some (Inl e, s1)
      | (Inr plugins', s1) \<Rightarrow>
          if loop_again plugins'
          then flatten_loop body env plugins' s1
          else Some (Inr plugins', s1))"

declare flatten_loop.simps [code]

definition asyncFlattenIsolatedPlugin ::
  "'w bodies \<Rightarrow> plugin_env \<Rightarrow> val \<Rightarrow> 'w heap \<Rightarrow> ((err + val list) \<times> 'w heap) option" where
  "asyncFlattenIsolatedPlugin body env plugins s =
     flatten_loop body env (case plugins of VArr xs \<Rightarrow> xs | _ \<Rightarrow> [plugins]) s"

section \<open>resolveIsolatedPlugins\<close>

text \<open>
  The \<^verbatim>\<open>for ... of\<close> over \<^verbatim>\<open>environment.config.plugins\<close>, with
  \<open>acc\<close> for \<^verbatim>\<open>resolvedPlugins\<close>. Nothing that runs inside the loop writes
  the array (constructors act on \<open>world\<close>), so the iteration over the list read at the start
  is the iteration over the live array. An exception or a rejection met by an
  \<^verbatim>\<open>await\<close> ends the call with that error.
\<close>

fun resolve_from ::
  "'w bodies \<Rightarrow> plugin_env \<Rightarrow> val list \<Rightarrow> val list \<Rightarrow> 'w heap \<Rightarrow> ((err + val list) \<times> 'w heap) option" where
  "resolve_from body env [] acc s = Some (Inr acc, s)"
| "resolve_from body env (VFun f sh # ps) acc s =
     (case invoke body f env s of
        (Throw e, s1) \<Rightarrow> Some (Inl e, s1)
      | (Return r, s1) \<Rightarrow>
          (case await r of
             Inl e \<Rightarrow> Some (Inl e, s1)
           | Inr isolatedPlugin \<Rightarrow>
               if truthy isolatedPlugin
               then (case asyncFlattenIsolatedPlugin body env isolatedPlugin s1 of
                       None \<Rightarrow> None
                     | Some (Inl e, s2) \<Rightarrow> Some (Inl e, s2)
                     | Some (Inr flatPlugins, s2) \<Rightarrow> resolve_from body env ps (acc @ flatPlugins) s2)
               else resolve_from body env ps acc s1))"
| "resolve_from body env (p # ps) acc s = resolve_from body env ps (acc @ [p]) s"

definition resolveIsolatedPlugins ::
  "'w bodies \<Rightarrow> plugin_env \<Rightarrow> 'w heap \<Rightarrow> ((err + val list) \<times> 'w heap) option" where
  "resolveIsolatedPlugins body env s = resolve_from body env (config_plugins s) [] s"

section \<open>Notions used to state the properties\<close>

text \<open>The constructor invocations made between two heaps of one run.\<close>

definition calls_during :: "'w heap \<Rightarrow> 'w heap \<Rightarrow> (fid \<times> plugin_env \<times> outcome) list" where
  "calls_during s s' = drop (length (invoked s)) (invoked s')"

text \<open>A constructor invocation failed: the constructor threw, or the promise it returned
  rejects.\<close>

fun failed :: "outcome \<Rightarrow> bool" where
  "failed (Throw e) = True"
| "failed (Return v) = (case await v of Inl e \<Rightarrow> True | Inr u \<Rightarrow> False)"

text \<open>Constructors are pure: what a call returns depends on the function and the environment
  only, and the call leaves the world as it found it.\<close>

definition pure_constructors :: "'w bodies \<Rightarrow> bool" where
  "pure_constructors body \<longleftrightarrow>
     (\<forall>f env w w'. fst (body f env w) = fst (body f env w') \<and> snd (body f env w) = w)"

text \<open>
  Counting: \<open>occ f v\<close> is the number of occurrences of the function \<open>f\<close> in the value
  \<open>v\<close>, at any depth of arrays and promises; \<open>calls_of f env cs\<close> the number of
  invocations of \<open>f\<close> with \<open>env\<close> in the trace \<open>cs\<close>; \<open>returned_occ f cs\<close> the number
  of occurrences of \<open>f\<close> in what the invocations of \<open>cs\<close> returned.
\<close>

fun occ :: "fid \<Rightarrow> val \<Rightarrow> nat" where
  "occ f (VFun g sh) = (if g = f then 1 else 0)"
| "occ f (VArr xs) = sum_list (map (occ f) xs)"
| "occ f (VPromise v) = occ f v"
| "occ f v = 0"

definition occs :: "fid \<Rightarrow> val list \<Rightarrow> nat" where
  "occs f xs = sum_list (map (occ f) xs)"

definition calls_of :: "fid \<Rightarrow> plugin_env \<Rightarrow> (fid \<times> plugin_env \<times> outcome) list \<Rightarrow> nat" where
  "calls_of f env cs = length (filter (\<lambda>(g, e, out). g = f \<and> e = env) cs)"

fun returned :: "fid \<Rightarrow> fid \<times> plugin_env \<times> outcome \<Rightarrow> nat" where
  "returned f (g, e, Return v) = occ f v"
| "returned f (g, e, Throw err) = 0"

definition returned_occ :: "fid \<Rightarrow> (fid \<times> plugin_env \<times> outcome) list \<Rightarrow> nat" where
  "returned_occ f cs = sum_list (map (returned f) cs)"


text \<open>A concrete plugin object.\<close>

fun is_plugin :: "val \<Rightarrow> bool" where
  "is_plugin (VPlugin p) = True"
| "is_plugin v = False"




text \<open>
  A malformed element: not a function, not an object, not an array and not falsy, that is
  \<^verbatim>\<open>true\<close>, a number other than zero or a non-empty string.
\<close>

fun is_object :: "val \<Rightarrow> bool" where
  "is_object (VPlugin p) = True"
| "is_object (VArr xs) = True"
| "is_object (VPromise v) = True"
| "is_object (VRejected e) = True"
| "is_object v = False"

definition malformed :: "val \<Rightarrow> bool" where
  "malformed v \<longleftrightarrow> \<not> is_function v \<and> \<not> is_object v \<and> \<not> is_array v \<and> truthy v"

text \<open>
  A run observed after a bounded number of passes. \<open>flatten_within n\<close> and
  \<open>resolve_within n\<close> are the two loops above with every \<^verbatim>\<open>do ... while\<close> allowed at
  most \<open>n\<close> passes: \<open>Settled y\<close> is a call that has returned or failed within the bound,
  \<open>Pending s\<close> one that has not, with the heap it has reached. A run settles with \<open>y\<close>
  exactly when some bound gives \<open>Settled y\<close> (lemma \<open>within_settles_iff\<close>); the bounded runs
  tell what has been invoked also in a run that never settles.
\<close>

datatype 'w progress = Settled "(err + val list) \<times> 'w heap" | Pending "'w heap"

fun reached :: "'w progress \<Rightarrow> 'w heap" where
  "reached (Settled (r, s)) = s"
| "reached (Pending s) = s"

fun flatten_within :: "nat \<Rightarrow> 'w bodies \<Rightarrow> plugin_env \<Rightarrow> val list \<Rightarrow> 'w heap \<Rightarrow> 'w progress" where
  "flatten_within 0 body env plugins s = Pending s"
| "flatten_within (Suc n) body env plugins s =
     (case flatten_pass body env plugins s of
        (Inl e, s1) \<Rightarrow> Settled (Inl e, s1)
      | (Inr plugins', s1) \<Rightarrow>
          if loop_again plugins'
          then flatten_within n body env plugins' s1
          else Settled (Inr plugins', s1))"

fun resolve_within ::
  "nat \<Rightarrow> 'w bodies \<Rightarrow> plugin_env \<Rightarrow> val list \<Rightarrow> val list \<Rightarrow> 'w heap \<Rightarrow> 'w progress" where
  "resolve_within n body env [] acc s = Settled (Inr acc, s)"
| "resolve_within n body env (VFun f sh # ps) acc s =
     (case invoke body f env s of
        (Throw e, s1) \<Rightarrow> Settled (Inl e, s1)
      | (Return r, s1) \<Rightarrow>
          (case await r of
             Inl e \<Rightarrow> Settled (Inl e, s1)
           | Inr isolatedPlugin \<Rightarrow>
               if truthy isolatedPlugin
               then (case flatten_within n body env
                            (case isolatedPlugin of VArr xs \<Rightarrow> xs | _ \<Rightarrow> [isolatedPlugin]) s1 of
                       Pending s2 \<Rightarrow> Pending s2
                     | Settled (Inl e, s2) \<Rightarrow> Settled (Inl e, s2)
                     | Settled (Inr flatPlugins, s2) \<Rightarrow>
                         resolve_within n body env ps (acc @ flatPlugins) s2)
               else resolve_within n body env ps acc s1))"
| "resolve_within n body env (p # ps) acc s = resolve_within n body env ps (acc @ [p]) s"

definition resolveIsolatedPlugins_within :: "nat \<Rightarrow> 'w bodies \<Rightarrow> plugin_env \<Rightarrow> 'w heap \<Rightarrow> 'w progress" where
  "resolveIsolatedPlugins_within n body env s = resolve_within n body env (config_plugins s) [] s"

fun failure :: "'w progress \<Rightarrow> bool" where
  "failure (Settled (Inl e, s)) = True"
| "failure p = False"

section \<open>Build environments that share instances\<close>

text \<open>
  \<^verbatim>\<open>plugin.ts\<close> only declares \<^verbatim>\<open>sharedDuringBuild\<close>, on \<^verbatim>\<open>Plugin\<close> and on
  \<^verbatim>\<open>IsolatedPluginConstructor\<close>; its comment says that plugins are re-created for each
  environment during a build and that sharing is an opt-in. The code that creates the build
  environments and acts on the flag, the builder, is not among the sources. The definitions
  of this section are written from the text of the specification, each one says so, and they
  hand the resolution itself to \<^const>\<open>resolveIsolatedPlugins\<close>, which is the code.
\<close>








definition runs_of :: "fid \<Rightarrow> (fid \<times> plugin_env) list \<Rightarrow> nat" where
  "runs_of f rs = length (filter (\<lambda>(g, e). g = f) rs)"


section \<open>Example inputs\<close>

text \<open>Two build environments, and a plugin object with no flag.\<close>

definition client_env :: plugin_env where
  "client_env = \<lparr>env_name = ''client'', env_mode = Build\<rparr>"

definition ssr_env :: plugin_env where
  "ssr_env = \<lparr>env_name = ''ssr'', env_mode = Build\<rparr>"

definition mk_plugin :: "nat \<Rightarrow> string \<Rightarrow> val" where
  "mk_plugin i n = VPlugin \<lparr>ident = i, plugin_name = n, sharedDuringBuild = None\<rparr>"

text \<open>A constructor table whose every function builds a fresh plugin object on each call:
  the world is the allocation counter.\<close>

definition fresh_ctor :: "nat bodies" where
  "fresh_ctor f env w =
     (Return (VPlugin \<lparr>ident = w, plugin_name = ''made'', sharedDuringBuild = Some True\<rparr>), Suc w)"

text \<open>Constructor \<open>0\<close> returns a promise of \<open>[D, F]\<close> with \<open>F\<close> the constructor \<open>1\<close>, which
  returns \<open>[G]\<close>.\<close>

definition nest_body :: "unit bodies" where
  "nest_body f env w =
     (if f = 0 then (Return (VPromise (VArr [mk_plugin 2 ''D'', VFun 1 None])), w)
      else (Return (VArr [mk_plugin 3 ''G'']), w))"

text \<open>Constructor \<open>0\<close> returns a promise of the constructor \<open>1\<close>, which returns a plugin.\<close>

definition ctor_chain :: "unit bodies" where
  "ctor_chain f env w =
     (if f = 0 then (Return (VPromise (VFun 1 None)), w) else (Return (mk_plugin 3 ''G''), w))"

text \<open>Constructor \<open>0\<close> returns \<open>[[F]]\<close> and constructor \<open>1\<close> returns \<open>[[F, promise of a]]\<close>,
  with \<open>F\<close> the constructor \<open>2\<close>, which returns the plugin \<open>G\<close>.\<close>

definition nested_ctor :: "unit bodies" where
  "nested_ctor f env w =
     (if f = 0 then (Return (VArr [VArr [VFun 2 None]]), w)
      else if f = 1 then (Return (VArr [VArr [VFun 2 None, VPromise (mk_plugin 1 ''a'')]]), w)
      else (Return (mk_plugin 3 ''G''), w))"

text \<open>A constructor that returns \<open>[a, false, [null, b], undefined]\<close>.\<close>

definition falsy_ctor :: "unit bodies" where
  "falsy_ctor f env w =
     (Return (VArr [mk_plugin 1 ''a'', VBool False, VArr [VNull, mk_plugin 2 ''b''], VUndefined]), w)"

text \<open>Constructor \<open>0\<close> returns \<open>[a, F]\<close> with \<open>F\<close> the constructor \<open>1\<close>, which returns a
  promise that rejects.\<close>

definition late_reject :: "unit bodies" where
  "late_reject f env w =
     (if f = 0 then (Return (VArr [mk_plugin 1 ''a'', VFun 1 None]), w)
      else (Return (VRejected ''late''), w))"

text \<open>A constructor table whose every function throws.\<close>

definition throwing_ctor :: "unit bodies" where
  "throwing_ctor f env w = (Throw ''boom'', w)"



section \<open>Proof rules for the two loops\<close>

text \<open>
  Rule induction over the runs of the \<^verbatim>\<open>do ... while\<close> that settle: the last pass
  fails, or it is the pass after which the test is false, or the loop goes on with the list
  the pass made.
\<close>

lemma flatten_loop_induct [consumes 1, case_names fail stop again]:
  assumes run: "flatten_loop body env ps s = Some (r, s')"
    and fail: "\<And>ps s e s1. flatten_pass body env ps s = (Inl e, s1) \<Longrightarrow> P ps s (Inl e) s1"
    and stop: "\<And>ps s ps' s1. flatten_pass body env ps s = (Inr ps', s1) \<Longrightarrow> \<not> loop_again ps'
                 \<Longrightarrow> P ps s (Inr ps') s1"
    and again: "\<And>ps s ps' s1 r s'. flatten_pass body env ps s = (Inr ps', s1) \<Longrightarrow> loop_again ps'
                 \<Longrightarrow> flatten_loop body env ps' s1 = Some (r, s') \<Longrightarrow> P ps' s1 r s' \<Longrightarrow> P ps s r s'"
  shows "P ps s r s'"
proof -
  let ?Q = "\<lambda>b e ps s y. b = body \<longrightarrow> e = env \<longrightarrow> flatten_loop body env ps s = Some y \<and> P ps s (fst y) (snd y)"
  have "?Q body env ps s (r, s')"
  proof (rule flatten_loop.raw_induct[where P = ?Q, OF _ run])
    fix loop and b :: "'a bodies" and e ps s y
    assume IH: "\<And>b e ps s y. loop b e ps s = Some y \<Longrightarrow> ?Q b e ps s y"
      and step: "(case flatten_pass b e ps s of
                    (Inl e, s1) \<Rightarrow> Some (Inl e, s1)
                  | (Inr plugins', s1) \<Rightarrow>
                      if loop_again plugins' then loop b e plugins' s1 else Some (Inr plugins', s1)) = Some y"
    show "?Q b e ps s y"
    proof (intro impI)
      assume be: "b = body" "e = env"
      obtain res s1 where pass: "flatten_pass body env ps s = (res, s1)"
        by (cases "flatten_pass body env ps s")
      show "flatten_loop body env ps s = Some y \<and> P ps s (fst y) (snd y)"
      proof (cases res)
        case (Inl er)
        with pass step be have "y = (Inl er, s1)" by simp
        with pass Inl fail show ?thesis by (simp add: flatten_loop.simps)
      next
        case (Inr ps')
        show ?thesis
        proof (cases "loop_again ps'")
          case True
          with pass Inr step be have "loop body env ps' s1 = Some y" by simp
          from IH[OF this] have rec: "flatten_loop body env ps' s1 = Some y" "P ps' s1 (fst y) (snd y)"
            by simp_all
          from pass Inr True rec(1) have "flatten_loop body env ps s = Some y"
            by (subst flatten_loop.simps) simp
          moreover from again[of ps s ps' s1 "fst y" "snd y"] pass Inr True rec
          have "P ps s (fst y) (snd y)" by simp
          ultimately show ?thesis by simp
        next
          case False
          with pass Inr step be have "y = (Inr ps', s1)" by simp
          with pass Inr False stop show ?thesis by (simp add: flatten_loop.simps)
        qed
      qed
    qed
  qed
  then show ?thesis by simp
qed

text \<open>What one invocation does to the heap, and the equations of the two loops for an element
  that is not a function.\<close>

lemma invoke_heap:
  "invoke body f env s = (out, s1) \<Longrightarrow>
     config_plugins s1 = config_plugins s \<and> invoked s1 = invoked s @ [(f, env, out)]"
  by (auto simp: invoke_def split: prod.splits)

lemma is_function_iff: "is_function p \<longleftrightarrow> (\<exists>f sh. p = VFun f sh)"
  by (cases p) auto

lemma map_call_other:
  "\<not> is_function p \<Longrightarrow> map_call body env (p # ps) s =
     (case map_call body env ps s of
        (Inl e, s2) \<Rightarrow> (Inl e, s2)
      | (Inr rs, s2) \<Rightarrow> (Inr (p # rs), s2))"
  by (cases p) auto

lemma resolve_from_other:
  "\<not> is_function p \<Longrightarrow> resolve_from body env (p # ps) acc s = resolve_from body env ps (acc @ [p]) s"
  by (cases p) auto

lemma map_call_config: "map_call body env ps s = (r, s1) \<Longrightarrow> config_plugins s1 = config_plugins s"
proof (induction ps arbitrary: r s s1)
  case Nil
  then show ?case by simp
next
  case (Cons p ps)
  show ?case
  proof (cases "is_function p")
    case True
    then obtain f sh where p: "p = VFun f sh" by (auto simp: is_function_iff)
    obtain out t where inv: "invoke body f env s = (out, t)" by (cases "invoke body f env s")
    obtain r2 t2 where rest: "map_call body env ps t = (r2, t2)" by (cases "map_call body env ps t")
    from invoke_heap[OF inv] Cons.IH[OF rest] Cons.prems p inv rest
    show ?thesis by (cases out; cases r2) auto
  next
    case False
    obtain r2 t2 where rest: "map_call body env ps s = (r2, t2)" by (cases "map_call body env ps s")
    from Cons.IH[OF rest] Cons.prems False rest show ?thesis
      by (cases r2) (auto simp: map_call_other)
  qed
qed

lemma flatten_pass_config:
  "flatten_pass body env ps s = (r, s1) \<Longrightarrow> config_plugins s1 = config_plugins s"
  by (auto simp: flatten_pass_def split: prod.splits sum.splits dest: map_call_config)

lemma flatten_loop_config:
  "flatten_loop body env ps s = Some (r, s') \<Longrightarrow> config_plugins s' = config_plugins s"
  by (induction rule: flatten_loop_induct) (auto dest: flatten_pass_config)

lemma asyncFlatten_config:
  "asyncFlattenIsolatedPlugin body env v s = Some (r, s') \<Longrightarrow> config_plugins s' = config_plugins s"
  unfolding asyncFlattenIsolatedPlugin_def by (rule flatten_loop_config)

text \<open>
  The same for the \<^verbatim>\<open>for ... of\<close> of resolveIsolatedPlugins, one case for each way
  through its body.
\<close>

lemma resolve_from_induct [consumes 1, case_names finish throw reject skip_falsy flat_fail flat plain]:
  assumes run: "resolve_from body env ps acc s = Some (r, s')"
    and finish: "\<And>acc s. P [] acc s (Inr acc) s"
    and throw: "\<And>f sh ps acc s e s1.
           invoke body f env s = (Throw e, s1) \<Longrightarrow> P (VFun f sh # ps) acc s (Inl e) s1"
    and reject: "\<And>f sh ps acc s v e s1.
           invoke body f env s = (Return v, s1) \<Longrightarrow> await v = Inl e
           \<Longrightarrow> P (VFun f sh # ps) acc s (Inl e) s1"
    and skip_falsy: "\<And>f sh ps acc s v u s1 r s'.
           invoke body f env s = (Return v, s1) \<Longrightarrow> await v = Inr u \<Longrightarrow> \<not> truthy u
           \<Longrightarrow> resolve_from body env ps acc s1 = Some (r, s') \<Longrightarrow> P ps acc s1 r s'
           \<Longrightarrow> P (VFun f sh # ps) acc s r s'"
    and flat_fail: "\<And>f sh ps acc s v u s1 e s2.
           invoke body f env s = (Return v, s1) \<Longrightarrow> await v = Inr u \<Longrightarrow> truthy u
           \<Longrightarrow> asyncFlattenIsolatedPlugin body env u s1 = Some (Inl e, s2)
           \<Longrightarrow> P (VFun f sh # ps) acc s (Inl e) s2"
    and flat: "\<And>f sh ps acc s v u s1 fp s2 r s'.
           invoke body f env s = (Return v, s1) \<Longrightarrow> await v = Inr u \<Longrightarrow> truthy u
           \<Longrightarrow> asyncFlattenIsolatedPlugin body env u s1 = Some (Inr fp, s2)
           \<Longrightarrow> resolve_from body env ps (acc @ fp) s2 = Some (r, s') \<Longrightarrow> P ps (acc @ fp) s2 r s'
           \<Longrightarrow> P (VFun f sh # ps) acc s r s'"
    and plain: "\<And>p ps acc s r s'.
           \<not> is_function p \<Longrightarrow> resolve_from body env ps (acc @ [p]) s = Some (r, s')
           \<Longrightarrow> P ps (acc @ [p]) s r s' \<Longrightarrow> P (p # ps) acc s r s'"
  shows "P ps acc s r s'"
  using run
proof (induction ps arbitrary: acc s)
  case Nil
  with finish show ?case by auto
next
  case (Cons p ps)
  show ?case
  proof (cases "is_function p")
    case True
    then obtain f sh where p: "p = VFun f sh" by (auto simp: is_function_iff)
    obtain out t where inv: "invoke body f env s = (out, t)" by (cases "invoke body f env s")
    show ?thesis
    proof (cases out)
      case (Throw e)
      with Cons.prems p inv throw[of f s e t sh ps acc] show ?thesis by simp
    next
      case (Return v)
      show ?thesis
      proof (cases "await v")
        case (Inl e)
        with Cons.prems p inv Return reject[of f s v t e sh ps acc] show ?thesis by simp
      next
        case (Inr u)
        show ?thesis
        proof (cases "truthy u")
          case False
          with Cons.prems p inv Return Inr have rest: "resolve_from body env ps acc t = Some (r, s')"
            by simp
          from skip_falsy[OF _ Inr False rest Cons.IH[OF rest]] inv Return p show ?thesis by simp
        next
          case True
          with Cons.prems p inv Return Inr obtain r2 t2
            where fl: "asyncFlattenIsolatedPlugin body env u t = Some (r2, t2)"
            by (auto split: option.splits)
          show ?thesis
          proof (cases r2)
            case (Inl e)
            with Cons.prems p inv Return Inr True fl flat_fail[of f s v t u e t2 sh ps acc]
            show ?thesis by simp
          next
            case r2: (Inr fp)
            with Cons.prems p inv Return Inr True fl
            have rest: "resolve_from body env ps (acc @ fp) t2 = Some (r, s')" by simp
            from flat[OF _ Inr True _ rest Cons.IH[OF rest]] inv Return fl r2 p
            show ?thesis by simp
          qed
        qed
      qed
    qed
  next
    case False
    with Cons.prems have rest: "resolve_from body env ps (acc @ [p]) s = Some (r, s')"
      by (simp add: resolve_from_other)
    from plain[OF False rest Cons.IH[OF rest]] show ?thesis .
  qed
qed

lemma resolve_from_config:
  "resolve_from body env ps acc s = Some (r, s') \<Longrightarrow> config_plugins s' = config_plugins s"
  by (induction rule: resolve_from_induct) (auto dest!: invoke_heap asyncFlatten_config)

section \<open>The contract of the normalizer\<close>

lemma map_call_no_fun:
  "\<forall>p\<in>set ps. \<not> is_function p \<Longrightarrow> map_call body env ps s = (Inr ps, s)"
  by (induction ps) (auto simp: map_call_other)








lemma flat_inf_no_array: "x \<in> set (flat_inf xs) \<Longrightarrow> \<not> is_array x"
  by (induction xs rule: flat_inf.induct) auto



lemma flat_inf_id: "\<forall>x\<in>set xs. \<not> is_array x \<Longrightarrow> flat_inf xs = xs"
  by (induction xs rule: flat_inf.induct) auto



lemma loop_again_iff: "loop_again ps \<longleftrightarrow> (\<exists>v\<in>set ps. has_then v \<or> has_split v)"
  by (simp add: loop_again_def list_ex_iff)








lemma flatten_pass_output:
  "flatten_pass body env ps s = (Inr ps', s1) \<Longrightarrow> \<forall>x\<in>set ps'. truthy x \<and> \<not> is_array x"
  by (auto simp: flatten_pass_def split: prod.splits sum.splits dest: flat_inf_no_array)

lemma flatten_loop_output:
  "flatten_loop body env ps s = Some (r, s') \<Longrightarrow>
     \<forall>out. r = Inr out \<longrightarrow> (\<forall>x\<in>set out. truthy x \<and> \<not> is_array x \<and> \<not> has_then x \<and> \<not> has_split x)"
proof (induction rule: flatten_loop_induct)
  case (stop ps s ps' s1)
  with flatten_pass_output[OF stop(1)] show ?case by (auto simp: loop_again_iff)
qed auto


text \<open>
  Claim C1. For every subtree the normalizer returns a sequence with no function, no
  promise-like value, no array and no falsy value in it, its loop going on until no element
  is a function or promise-like, also when what a constructor returns is itself a function.
  The code does not keep this. The pass calls the elements that are functions, but the test of
  the loop looks only for \<^verbatim>\<open>then\<close> and \<^verbatim>\<open>split\<close>: a function that a pass
  brings up (out of a nested array, or out of a promise) ends the loop and is returned among
  the plugins. The same function brought up beside a promise is called, because the promise
  keeps the loop going.
\<close>

theorem function_left_in_result:
  "resolveIsolatedPlugins nested_ctor client_env
     \<lparr>config_plugins = [VFun 0 None], world = (), invoked = []\<rparr>
   = Some (Inr [VFun 2 None],
           \<lparr>config_plugins = [VFun 0 None], world = (),
            invoked = [(0, client_env, Return (VArr [VArr [VFun 2 None]]))]\<rparr>)
   \<and> is_function (VFun 2 None)
   \<and> resolveIsolatedPlugins nested_ctor client_env
       \<lparr>config_plugins = [VFun 1 None], world = (), invoked = []\<rparr>
     = Some (Inr [mk_plugin 3 ''G'', mk_plugin 1 ''a''],
           \<lparr>config_plugins = [VFun 1 None], world = (),
            invoked = [(1, client_env,
                        Return (VArr [VArr [VFun 2 None, VPromise (mk_plugin 1 ''a'')]])),
                       (2, client_env, Return (mk_plugin 3 ''G''))]\<rparr>)
   \<and> asyncFlattenIsolatedPlugin ctor_chain client_env (VFun 0 None)
       \<lparr>config_plugins = [], world = (), invoked = []\<rparr>
     = Some (Inr [VFun 1 None],
           \<lparr>config_plugins = [], world = (),
            invoked = [(0, client_env, Return (VPromise (VFun 1 None)))]\<rparr>)"
  by (simp add: resolveIsolatedPlugins_def asyncFlattenIsolatedPlugin_def flatten_loop.simps
      flatten_pass_def loop_again_def invoke_def nested_ctor_def ctor_chain_def mk_plugin_def)

section \<open>Malformed elements\<close>

lemma await_settled: "\<not> has_then x \<Longrightarrow> await x = Inr x"
  by (cases x) auto

lemma promise_all_settled: "\<forall>x\<in>set ps. \<not> has_then x \<Longrightarrow> promise_all ps = Inr ps"
  by (induction ps) (auto simp: await_settled)

lemma filter_truthy_id: "\<forall>x\<in>set ps. truthy x \<Longrightarrow> filter truthy ps = ps"
  by (induction ps) auto

lemma settled_loop:
  assumes "\<forall>x\<in>set ps. truthy x \<and> \<not> is_function x \<and> \<not> is_array x \<and> \<not> has_then x \<and> \<not> has_split x"
  shows "flatten_loop body env ps s = Some (Inr ps, s)"
proof -
  from assms have "flatten_pass body env ps s = (Inr ps, s)"
    by (simp add: flatten_pass_def map_call_no_fun promise_all_settled flat_inf_id filter_truthy_id)
  moreover from assms have "\<not> loop_again ps" by (auto simp: loop_again_iff)
  ultimately show ?thesis by (subst flatten_loop.simps) simp
qed

lemma string_never_settles:
  assumes "str \<noteq> []"
  shows "flatten_loop body env [VStr str] s = None"
proof (rule ccontr)
  assume "flatten_loop body env [VStr str] s \<noteq> None"
  then obtain r s' where run: "flatten_loop body env [VStr str] s = Some (r, s')" by auto
  have "ps \<noteq> [VStr str]" if "flatten_loop body env ps t = Some (r, t')" for ps t r t'
    using that
  proof (induction rule: flatten_loop_induct)
    case (fail ps s e s1)
    with assms show ?case by (auto simp: flatten_pass_def)
  next
    case (stop ps s ps' s1)
    with assms show ?case by (auto simp: flatten_pass_def loop_again_def)
  next
    case (again ps s ps' s1 r s')
    with assms show ?case by (auto simp: flatten_pass_def)
  qed
  from this[OF run] show False by simp
qed

lemma malformed_cases:
  "malformed v \<longleftrightarrow> v = VBool True \<or> (\<exists>n. v = VNum n \<and> n \<noteq> 0) \<or> (\<exists>str. v = VStr str \<and> str \<noteq> [])"
  by (cases v) (auto simp: malformed_def)

lemma malformed_settled:
  "malformed v \<Longrightarrow> \<not> has_split v \<Longrightarrow>
     truthy v \<and> \<not> is_function v \<and> \<not> is_array v \<and> \<not> has_then v \<and> \<not> has_split v"
  by (auto simp: malformed_cases)

lemma plugin_settled:
  "is_plugin x \<Longrightarrow> truthy x \<and> \<not> is_function x \<and> \<not> is_array x \<and> \<not> has_then x \<and> \<not> has_split x"
  by (cases x) auto

text \<open>
  Claim C2, as stated: a malformed element reaching the normalizer makes the call fail at
  once with a configuration error. The number \<open>42\<close> is returned in the result, and the
  string \<open>abc\<close> keeps the loop running for ever.
\<close>

theorem malformed_counterexample:
  "malformed (VNum 42) \<and> malformed (VStr ''abc'')
   \<and> asyncFlattenIsolatedPlugin ctor_chain client_env (VNum 42)
        \<lparr>config_plugins = [], world = (), invoked = []\<rparr>
     = Some (Inr [VNum 42], \<lparr>config_plugins = [], world = (), invoked = []\<rparr>)
   \<and> asyncFlattenIsolatedPlugin ctor_chain client_env (VStr ''abc'')
        \<lparr>config_plugins = [], world = (), invoked = []\<rparr> = None"
  by (simp add: malformed_def asyncFlattenIsolatedPlugin_def string_never_settles settled_loop)

text \<open>
  Claim C2, amended. No shape of element is rejected by the normalizer. A malformed element
  without a \<^verbatim>\<open>split\<close> member, that is \<^verbatim>\<open>true\<close> or a number other than zero, alone
  or among plugins, is returned unchanged at its place in the result, and the call does not
  fail.
\<close>

theorem malformed_passed_through:
  assumes "malformed v" and "\<not> has_split v" and "\<forall>x\<in>set pre \<union> set post. is_plugin x"
  shows "asyncFlattenIsolatedPlugin body env v s = Some (Inr [v], s)
       \<and> asyncFlattenIsolatedPlugin body env (VArr (pre @ v # post)) s = Some (Inr (pre @ v # post), s)"
proof -
  note mv = malformed_settled[OF assms(1,2)]
  from assms(1) have shape: "(case v of VArr xs \<Rightarrow> xs | _ \<Rightarrow> [v]) = [v]"
    by (auto simp: malformed_cases)
  from mv have "flatten_loop body env [v] s = Some (Inr [v], s)" by (intro settled_loop) simp
  moreover from mv assms(3) have "flatten_loop body env (pre @ v # post) s = Some (Inr (pre @ v # post), s)"
    by (intro settled_loop) (auto simp: plugin_settled)
  ultimately show ?thesis by (simp add: asyncFlattenIsolatedPlugin_def shape)
qed

theorem malformed_passed_through_witness:
  "malformed (VNum 7) \<and> \<not> has_split (VNum 7)
   \<and> asyncFlattenIsolatedPlugin ctor_chain client_env (VArr [mk_plugin 1 ''a'', VNum 7, mk_plugin 2 ''b''])
        \<lparr>config_plugins = [], world = (), invoked = []\<rparr>
     = Some (Inr [mk_plugin 1 ''a'', VNum 7, mk_plugin 2 ''b''],
             \<lparr>config_plugins = [], world = (), invoked = []\<rparr>)"
proof -
  have m: "malformed (VNum 7)" by (simp add: malformed_def)
  have ns: "\<not> has_split (VNum 7)" by simp
  have pl: "\<forall>x\<in>set [mk_plugin 1 ''a''] \<union> set [mk_plugin 2 ''b'']. is_plugin x"
    by (simp add: mk_plugin_def)
  from malformed_passed_through[OF m ns pl, of ctor_chain client_env
         "\<lparr>config_plugins = [], world = (), invoked = []\<rparr>"] m ns
  show ?thesis by simp
qed

section \<open>Falsy values\<close>

lemma resolve_from_falsy:
  "resolve_from body env ps acc s = Some (r, s') \<Longrightarrow>
     \<forall>out. r = Inr out \<longrightarrow> (\<forall>x\<in>set out. truthy x \<or> x \<in> set acc \<or> (x \<in> set ps \<and> \<not> is_function x))"
proof (induction rule: resolve_from_induct)
  case (flat f sh ps acc s v u s1 fp s2 r s')
  from flatten_loop_output[OF flat(4)[unfolded asyncFlattenIsolatedPlugin_def]]
  have "\<forall>x\<in>set fp. truthy x" by simp
  with flat.IH show ?case by auto
qed auto

text \<open>
  Claim C3, as stated: at every depth, the top-level list included, \<^verbatim>\<open>false\<close>,
  \<^verbatim>\<open>null\<close> and \<^verbatim>\<open>undefined\<close> contribute no element. An entry of the top-level
  list that is no function is pushed as it is.
\<close>

theorem top_level_falsy_counterexample:
  "resolveIsolatedPlugins ctor_chain client_env
     \<lparr>config_plugins = [mk_plugin 1 ''a'', VBool False, VNull, VUndefined], world = (), invoked = []\<rparr>
   = Some (Inr [mk_plugin 1 ''a'', VBool False, VNull, VUndefined],
           \<lparr>config_plugins = [mk_plugin 1 ''a'', VBool False, VNull, VUndefined], world = (), invoked = []\<rparr>)"
  by (simp add: resolveIsolatedPlugins_def mk_plugin_def)


text \<open>
  Claim C3, amended. Below the top-level list, at every depth of what a constructor returns,
  \<^verbatim>\<open>false\<close>, \<^verbatim>\<open>null\<close> and \<^verbatim>\<open>undefined\<close> contribute no element to the
  resolved output: a falsy element of the output is always an entry of the top-level list
  itself, appended as it stands.
\<close>

theorem falsy_only_from_top_level:
  assumes "resolveIsolatedPlugins body env s = Some (Inr out, s')"
  shows "\<forall>x\<in>set out. truthy x \<or> (x \<in> set (config_plugins s) \<and> \<not> is_function x)"
  using resolve_from_falsy[OF assms[unfolded resolveIsolatedPlugins_def]] by simp

theorem falsy_only_from_top_level_witness:
  "resolveIsolatedPlugins falsy_ctor client_env
     \<lparr>config_plugins = [VFun 0 None], world = (), invoked = []\<rparr>
   = Some (Inr [mk_plugin 1 ''a'', mk_plugin 2 ''b''],
           \<lparr>config_plugins = [VFun 0 None], world = (),
            invoked = [(0, client_env, Return (VArr [mk_plugin 1 ''a'', VBool False,
                                                     VArr [VNull, mk_plugin 2 ''b''], VUndefined]))]\<rparr>)
   \<and> truthy (mk_plugin 1 ''a'') \<and> truthy (mk_plugin 2 ''b'')"
proof -
  have run: "resolveIsolatedPlugins falsy_ctor client_env
       \<lparr>config_plugins = [VFun 0 None], world = (), invoked = []\<rparr>
     = Some (Inr [mk_plugin 1 ''a'', mk_plugin 2 ''b''],
           \<lparr>config_plugins = [VFun 0 None], world = (),
            invoked = [(0, client_env, Return (VArr [mk_plugin 1 ''a'', VBool False,
                                                     VArr [VNull, mk_plugin 2 ''b''], VUndefined]))]\<rparr>)"
    by (simp add: resolveIsolatedPlugins_def mk_plugin_def invoke_def falsy_ctor_def
        asyncFlattenIsolatedPlugin_def flatten_loop.simps flatten_pass_def loop_again_def)
  from falsy_only_from_top_level[OF run]
  have "\<forall>x\<in>set [mk_plugin 1 ''a'', mk_plugin 2 ''b''].
          truthy x \<or> (x \<in> set [VFun 0 None] \<and> \<not> is_function x)" by simp
  then have "truthy (mk_plugin 1 ''a'')" "truthy (mk_plugin 2 ''b'')" by auto
  with run show ?thesis by blast
qed

section \<open>Worked examples of the flattening order\<close>

text \<open>
  Claim C4, as stated: for the input list \<open>[A, false, [B, null], C]\<close> resolution yields
  exactly \<open>[A, B, C]\<close>. Given as the list of the config, the four entries are returned as
  they are: none of them is a function, and each is pushed unchanged.
\<close>

theorem flatten_law_top_level_counterexample:
  "resolveIsolatedPlugins ctor_chain client_env
     \<lparr>config_plugins = [mk_plugin 1 ''A'', VBool False, VArr [mk_plugin 2 ''B'', VNull],
                        mk_plugin 3 ''C''], world = (), invoked = []\<rparr>
   = Some (Inr [mk_plugin 1 ''A'', VBool False, VArr [mk_plugin 2 ''B'', VNull], mk_plugin 3 ''C''],
           \<lparr>config_plugins = [mk_plugin 1 ''A'', VBool False, VArr [mk_plugin 2 ''B'', VNull],
                              mk_plugin 3 ''C''], world = (), invoked = []\<rparr>)"
  by (simp add: resolveIsolatedPlugins_def mk_plugin_def)

text \<open>
  Claim C4, amended. When the list \<open>[A, false, [B, null], C]\<close> with concrete plugins \<open>A\<close>,
  \<open>B\<close>, \<open>C\<close> is what the normalizer is given, or what a constructor of the top-level list
  returns, resolution yields exactly \<open>[A, B, C]\<close>, in that order, whatever the constructors,
  the environment and the heap.
\<close>

theorem flatten_law:
  "asyncFlattenIsolatedPlugin body env
     (VArr [VPlugin a, VBool False, VArr [VPlugin b, VNull], VPlugin c]) s
   = Some (Inr [VPlugin a, VPlugin b, VPlugin c], s)
   \<and> resolveIsolatedPlugins
        (\<lambda>f env w. (Return (VArr [VPlugin a, VBool False, VArr [VPlugin b, VNull], VPlugin c]), w))
        env \<lparr>config_plugins = [VFun k sh], world = w, invoked = tr\<rparr>
     = Some (Inr [VPlugin a, VPlugin b, VPlugin c],
             \<lparr>config_plugins = [VFun k sh], world = w,
              invoked = tr @ [(k, env, Return (VArr [VPlugin a, VBool False,
                                                     VArr [VPlugin b, VNull], VPlugin c]))]\<rparr>)"
  by (simp add: resolveIsolatedPlugins_def invoke_def asyncFlattenIsolatedPlugin_def
      flatten_loop.simps flatten_pass_def loop_again_def)

text \<open>
  Claim C5. For the top-level list \<open>[D0, E]\<close>, where \<open>D0\<close> is a plain plugin and the
  constructor \<open>E\<close> returns a promise of \<open>[D, F]\<close>, with \<open>F\<close> a constructor that returns
  \<open>[G]\<close>, resolution yields exactly \<open>[D0, D, G]\<close>.
\<close>

theorem async_nesting:
  assumes E: "body E env (world s) = (Return (VPromise (VArr [VPlugin d, VFun F shF])), w1)"
    and F: "body F env w1 = (Return (VArr [VPlugin g]), w2)"
    and cfg: "config_plugins s = [VPlugin d0, VFun E shE]"
  shows "\<exists>s'. resolveIsolatedPlugins body env s = Some (Inr [VPlugin d0, VPlugin d, VPlugin g], s')"
  using E F cfg
  by (simp add: resolveIsolatedPlugins_def invoke_def asyncFlattenIsolatedPlugin_def
      flatten_loop.simps flatten_pass_def loop_again_def)

theorem async_nesting_witness:
  "\<exists>s'. resolveIsolatedPlugins nest_body client_env
          \<lparr>config_plugins = [mk_plugin 1 ''D0'', VFun 0 None], world = (), invoked = []\<rparr>
        = Some (Inr [mk_plugin 1 ''D0'', mk_plugin 2 ''D'', mk_plugin 3 ''G''], s')"
  using async_nesting[of nest_body 0 client_env
          "\<lparr>config_plugins = [mk_plugin 1 ''D0'', VFun 0 None], world = (), invoked = []\<rparr>"
          "\<lparr>ident = 2, plugin_name = ''D'', sharedDuringBuild = None\<rparr>" 1 None "()"
          "\<lparr>ident = 3, plugin_name = ''G'', sharedDuringBuild = None\<rparr>" "()"
          "\<lparr>ident = 1, plugin_name = ''D0'', sharedDuringBuild = None\<rparr>" None]
  by (simp add: nest_body_def mk_plugin_def)

section \<open>Failure of a constructor\<close>

lemma calls_during_append: "invoked s' = invoked s @ new \<Longrightarrow> calls_during s s' = new"
  by (simp add: calls_during_def)

lemma promise_all_ok: "promise_all rs = Inr vs \<Longrightarrow> v \<in> set rs \<Longrightarrow> \<not> failed (Return v)"
  by (induction rs arbitrary: vs) (auto split: sum.splits)

lemma map_call_calls:
  "map_call body env ps s = (r, s1) \<Longrightarrow>
     \<exists>new. invoked s1 = invoked s @ new \<and>
       (\<forall>rs. r = Inr rs \<longrightarrow> (\<forall>(f, e, out)\<in>set new. \<exists>v\<in>set rs. out = Return v))"
proof (induction ps arbitrary: r s s1)
  case Nil
  then show ?case by simp
next
  case (Cons p ps)
  show ?case
  proof (cases "is_function p")
    case True
    then obtain f sh where p: "p = VFun f sh" by (auto simp: is_function_iff)
    obtain out t where inv: "invoke body f env s = (out, t)" by (cases "invoke body f env s")
    obtain r2 t2 where rest: "map_call body env ps t = (r2, t2)" by (cases "map_call body env ps t")
    from Cons.IH[OF rest] obtain new where new: "invoked t2 = invoked t @ new"
      "\<forall>rs. r2 = Inr rs \<longrightarrow> (\<forall>(f, e, out)\<in>set new. \<exists>v\<in>set rs. out = Return v)" by blast
    show ?thesis
    proof (cases out)
      case (Throw e)
      with Cons.prems p inv invoke_heap[OF inv] show ?thesis by auto
    next
      case (Return v)
      with Cons.prems p inv rest have r: "r = (case r2 of Inl e \<Rightarrow> Inl e | Inr rs \<Rightarrow> Inr (v # rs))"
        and s1: "s1 = t2" by (auto split: sum.splits)
      from invoke_heap[OF inv] new(1) s1 have "invoked s1 = invoked s @ ((f, env, out) # new)" by simp
      moreover from r new(2) Return
      have "\<forall>rs. r = Inr rs \<longrightarrow> (\<forall>(f, e, out)\<in>set ((f, env, out) # new). \<exists>v\<in>set rs. out = Return v)"
        by (cases r2) fastforce+
      ultimately show ?thesis by blast
    qed
  next
    case False
    obtain r2 t2 where rest: "map_call body env ps s = (r2, t2)" by (cases "map_call body env ps s")
    from Cons.IH[OF rest] obtain new where new: "invoked t2 = invoked s @ new"
      "\<forall>rs. r2 = Inr rs \<longrightarrow> (\<forall>(f, e, out)\<in>set new. \<exists>v\<in>set rs. out = Return v)" by blast
    from Cons.prems False rest have r: "r = (case r2 of Inl e \<Rightarrow> Inl e | Inr rs \<Rightarrow> Inr (p # rs))"
      and s1: "s1 = t2" by (auto simp: map_call_other split: sum.splits)
    from r new(2) have "\<forall>rs. r = Inr rs \<longrightarrow> (\<forall>(f, e, out)\<in>set new. \<exists>v\<in>set rs. out = Return v)"
      by (cases r2) fastforce+
    with new(1) s1 show ?thesis by blast
  qed
qed

lemma flatten_pass_calls:
  assumes "flatten_pass body env ps s = (r, s1)"
  shows "\<exists>new. invoked s1 = invoked s @ new \<and>
           (\<forall>ps'. r = Inr ps' \<longrightarrow> (\<forall>(f, e, out)\<in>set new. \<not> failed out))"
proof -
  obtain r0 t where mc: "map_call body env ps s = (r0, t)" by (cases "map_call body env ps s")
  from map_call_calls[OF mc] obtain new where new: "invoked t = invoked s @ new"
    "\<forall>rs. r0 = Inr rs \<longrightarrow> (\<forall>(f, e, out)\<in>set new. \<exists>v\<in>set rs. out = Return v)" by blast
  from assms mc have s1: "s1 = t" by (auto simp: flatten_pass_def split: sum.splits)
  have "\<forall>(f, e, out)\<in>set new. \<not> failed out" if "r = Inr ps'" for ps'
  proof -
    from that assms mc obtain rs vs where rs: "r0 = Inr rs" "promise_all rs = Inr vs"
      by (auto simp: flatten_pass_def split: sum.splits)
    with new(2) promise_all_ok[OF rs(2)] show ?thesis by fastforce
  qed
  with new(1) s1 show ?thesis by blast
qed

lemma flatten_loop_calls:
  "flatten_loop body env ps s = Some (r, s') \<Longrightarrow>
     \<exists>new. invoked s' = invoked s @ new \<and>
       (\<forall>out'. r = Inr out' \<longrightarrow> (\<forall>(f, e, out)\<in>set new. \<not> failed out))"
proof (induction rule: flatten_loop_induct)
  case (fail ps s e s1)
  from flatten_pass_calls[OF this] show ?case by auto
next
  case (stop ps s ps' s1)
  from flatten_pass_calls[OF stop(1)] show ?case by auto
next
  case (again ps s ps' s1 r s')
  from flatten_pass_calls[OF again(1)] obtain n1 where n1: "invoked s1 = invoked s @ n1"
    "\<forall>(f, e, out)\<in>set n1. \<not> failed out" by auto
  from again.IH obtain n2 where n2: "invoked s' = invoked s1 @ n2"
    "\<forall>out'. r = Inr out' \<longrightarrow> (\<forall>(f, e, out)\<in>set n2. \<not> failed out)" by blast
  from n1 n2 have "invoked s' = invoked s @ (n1 @ n2)"
    "\<forall>out'. r = Inr out' \<longrightarrow> (\<forall>(f, e, out)\<in>set (n1 @ n2). \<not> failed out)" by auto
  then show ?case by blast
qed

lemma resolve_from_calls:
  "resolve_from body env ps acc s = Some (r, s') \<Longrightarrow>
     \<exists>new. invoked s' = invoked s @ new \<and>
       (\<forall>out'. r = Inr out' \<longrightarrow> (\<forall>(f, e, out)\<in>set new. \<not> failed out))"
proof (induction rule: resolve_from_induct)
  case (finish acc s)
  then show ?case by simp
next
  case (throw f sh ps acc s e s1)
  from invoke_heap[OF this] show ?case by simp
next
  case (reject f sh ps acc s v e s1)
  from invoke_heap[OF reject(1)] show ?case by simp
next
  case (skip_falsy f sh ps acc s v u s1 r s')
  from skip_falsy.IH obtain n2 where n2: "invoked s' = invoked s1 @ n2"
    "\<forall>out'. r = Inr out' \<longrightarrow> (\<forall>(f, e, out)\<in>set n2. \<not> failed out)" by blast
  from invoke_heap[OF skip_falsy(1)] n2 skip_falsy(2)
  have "invoked s' = invoked s @ ((f, env, Return v) # n2)"
    "\<forall>out'. r = Inr out' \<longrightarrow> (\<forall>(f, e, out)\<in>set ((f, env, Return v) # n2). \<not> failed out)" by auto
  then show ?case by blast
next
  case (flat_fail f sh ps acc s v u s1 e s2)
  from flatten_loop_calls[OF flat_fail(4)[unfolded asyncFlattenIsolatedPlugin_def]]
    invoke_heap[OF flat_fail(1)] show ?case by auto
next
  case (flat f sh ps acc s v u s1 fp s2 r s')
  from flatten_loop_calls[OF flat(4)[unfolded asyncFlattenIsolatedPlugin_def]]
  obtain n1 where n1: "invoked s2 = invoked s1 @ n1" "\<forall>(f, e, out)\<in>set n1. \<not> failed out" by auto
  from flat.IH obtain n2 where n2: "invoked s' = invoked s2 @ n2"
    "\<forall>out'. r = Inr out' \<longrightarrow> (\<forall>(f, e, out)\<in>set n2. \<not> failed out)" by blast
  from invoke_heap[OF flat(1)] n1 n2 flat(2)
  have "invoked s' = invoked s @ ((f, env, Return v) # n1 @ n2)"
    "\<forall>out'. r = Inr out' \<longrightarrow> (\<forall>(f, e, out)\<in>set ((f, env, Return v) # n1 @ n2). \<not> failed out)" by auto
  then show ?case by blast
next
  case (plain p ps acc s r s')
  then show ?case by simp
qed

text \<open>Of a run that has settled: a failed invocation in its trace makes its result an error.\<close>

lemma settled_failure_is_error:
  assumes "resolveIsolatedPlugins body env s = Some (r, s')"
    and "(f, e, out) \<in> set (calls_during s s')" and "failed out"
  shows "\<exists>err. r = Inl err"
proof -
  from resolve_from_calls[OF assms(1)[unfolded resolveIsolatedPlugins_def]]
  obtain new where new: "invoked s' = invoked s @ new"
    "\<forall>out'. r = Inr out' \<longrightarrow> (\<forall>(f, e, out)\<in>set new. \<not> failed out)" by blast
  from calls_during_append[OF new(1)] assms(2) have "(f, e, out) \<in> set new" by simp
  with new(2) assms(3) show ?thesis by (cases r) auto
qed


lemma resolve_within_other:
  "\<not> is_function p \<Longrightarrow> resolve_within n body env (p # ps) acc s = resolve_within n body env ps (acc @ [p]) s"
  by (cases p) auto

lemma flatten_within_sound:
  "flatten_within n body env ps s = Settled y \<Longrightarrow> flatten_loop body env ps s = Some y"
proof (induction n arbitrary: ps s)
  case 0
  then show ?case by simp
next
  case (Suc n)
  obtain r s1 where pass: "flatten_pass body env ps s = (r, s1)" by (cases "flatten_pass body env ps s")
  show ?case
  proof (cases r)
    case (Inl e)
    with Suc.prems pass show ?thesis by (subst flatten_loop.simps) auto
  next
    case (Inr ps')
    show ?thesis
    proof (cases "loop_again ps'")
      case True
      with Suc.prems pass Inr have "flatten_within n body env ps' s1 = Settled y" by simp
      from Suc.IH[OF this] pass Inr True show ?thesis by (subst flatten_loop.simps) simp
    next
      case False
      with Suc.prems pass Inr show ?thesis by (subst flatten_loop.simps) auto
    qed
  qed
qed

lemma flatten_within_mono:
  "flatten_within n body env ps s = Settled y \<Longrightarrow> n \<le> m \<Longrightarrow> flatten_within m body env ps s = Settled y"
proof (induction n arbitrary: m ps s)
  case 0
  then show ?case by simp
next
  case (Suc n)
  from Suc.prems(2) obtain k where m: "m = Suc k" "n \<le> k" by (cases m) auto
  obtain r s1 where pass: "flatten_pass body env ps s = (r, s1)" by (cases "flatten_pass body env ps s")
  show ?case
  proof (cases r)
    case (Inl e)
    with Suc.prems pass m show ?thesis by auto
  next
    case (Inr ps')
    show ?thesis
    proof (cases "loop_again ps'")
      case True
      with Suc.prems pass Inr have "flatten_within n body env ps' s1 = Settled y" by simp
      from Suc.IH[OF this m(2)] pass Inr True m show ?thesis by simp
    next
      case False
      with Suc.prems pass Inr m show ?thesis by auto
    qed
  qed
qed

lemma flatten_within_complete:
  "flatten_loop body env ps s = Some (r, s') \<Longrightarrow> \<exists>n. flatten_within n body env ps s = Settled (r, s')"
proof (induction rule: flatten_loop_induct)
  case (fail ps s e s1)
  then have "flatten_within (Suc 0) body env ps s = Settled (Inl e, s1)" by simp
  then show ?case by blast
next
  case (stop ps s ps' s1)
  then have "flatten_within (Suc 0) body env ps s = Settled (Inr ps', s1)" by simp
  then show ?case by blast
next
  case (again ps s ps' s1 r s')
  then obtain n where "flatten_within n body env ps' s1 = Settled (r, s')" by blast
  with again(1,2) have "flatten_within (Suc n) body env ps s = Settled (r, s')" by simp
  then show ?case by blast
qed


lemma failure_iff: "failure p \<longleftrightarrow> (\<exists>e s. p = Settled (Inl e, s))"
  by (cases p rule: failure.cases) auto

lemma resolve_within_throw:
  "invoke body f env s = (Throw e, s1) \<Longrightarrow>
     resolve_within n body env (VFun f sh # ps) acc s = Settled (Inl e, s1)"
  by simp

lemma resolve_within_reject:
  "invoke body f env s = (Return v, s1) \<Longrightarrow> await v = Inl e \<Longrightarrow>
     resolve_within n body env (VFun f sh # ps) acc s = Settled (Inl e, s1)"
  by simp

lemma resolve_within_skip:
  "invoke body f env s = (Return v, s1) \<Longrightarrow> await v = Inr u \<Longrightarrow> \<not> truthy u \<Longrightarrow>
     resolve_within n body env (VFun f sh # ps) acc s = resolve_within n body env ps acc s1"
  by simp

lemma resolve_within_flat:
  "invoke body f env s = (Return v, s1) \<Longrightarrow> await v = Inr u \<Longrightarrow> truthy u \<Longrightarrow>
     resolve_within n body env (VFun f sh # ps) acc s =
       (case flatten_within n body env (case u of VArr xs \<Rightarrow> xs | _ \<Rightarrow> [u]) s1 of
          Pending s2 \<Rightarrow> Pending s2
        | Settled (Inl e, s2) \<Rightarrow> Settled (Inl e, s2)
        | Settled (Inr fp, s2) \<Rightarrow> resolve_within n body env ps (acc @ fp) s2)"
  by simp

lemma resolve_within_mono:
  "resolve_within n body env ps acc s = Settled y \<Longrightarrow> n \<le> m
     \<Longrightarrow> resolve_within m body env ps acc s = Settled y"
proof (induction ps arbitrary: acc s)
  case Nil
  then show ?case by simp
next
  case (Cons p ps)
  show ?case
  proof (cases "is_function p")
    case False
    with Cons show ?thesis by (simp add: resolve_within_other)
  next
    case True
    then obtain f sh where p: "p = VFun f sh" by (auto simp: is_function_iff)
    obtain out s1 where inv: "invoke body f env s = (out, s1)" by (cases "invoke body f env s")
    show ?thesis
    proof (cases out)
      case (Throw e)
      with Cons.prems p inv show ?thesis by simp
    next
      case (Return v)
      show ?thesis
      proof (cases "await v")
        case (Inl e)
        with Cons.prems p inv Return show ?thesis by simp
      next
        case (Inr u)
        show ?thesis
        proof (cases "truthy u")
          case False
          with Cons.prems p inv Return Inr
          have "resolve_within n body env ps acc s1 = Settled y" by simp
          from Cons.IH[OF this Cons.prems(2)] p inv Return Inr False show ?thesis by simp
        next
          case True
          let ?in = "case u of VArr xs \<Rightarrow> xs | _ \<Rightarrow> [u]"
          note unf = resolve_within_flat[OF inv[unfolded Return] Inr True]
          show ?thesis
          proof (cases "flatten_within n body env ?in s1")
            case (Pending s2)
            with Cons.prems(1) p unf[of n sh ps acc] show ?thesis by simp
          next
            case (Settled z)
            obtain r2 s2 where z: "z = (r2, s2)" by (cases z)
            from flatten_within_mono[OF Settled Cons.prems(2)]
            have fm: "flatten_within m body env ?in s1 = Settled (r2, s2)" by (simp add: z)
            show ?thesis
            proof (cases r2)
              case (Inl e)
              with Cons.prems(1) p unf[of n sh ps acc] unf[of m sh ps acc] Settled z fm
              show ?thesis by simp
            next
              case r2: (Inr fp)
              with Cons.prems(1) p unf[of n sh ps acc] Settled z
              have "resolve_within n body env ps (acc @ fp) s2 = Settled y" by simp
              from Cons.IH[OF this Cons.prems(2)] p unf[of m sh ps acc] fm r2
              show ?thesis by simp
            qed
          qed
        qed
      qed
    qed
  qed
qed

lemma resolve_within_sound:
  "resolve_within n body env ps acc s = Settled y \<Longrightarrow> resolve_from body env ps acc s = Some y"
proof (induction ps arbitrary: acc s)
  case Nil
  then show ?case by simp
next
  case (Cons p ps)
  show ?case
  proof (cases "is_function p")
    case False
    with Cons show ?thesis by (simp add: resolve_within_other resolve_from_other)
  next
    case True
    then obtain f sh where p: "p = VFun f sh" by (auto simp: is_function_iff)
    obtain out s1 where inv: "invoke body f env s = (out, s1)" by (cases "invoke body f env s")
    show ?thesis
    proof (cases out)
      case (Throw e)
      with Cons.prems p inv show ?thesis by auto
    next
      case (Return v)
      show ?thesis
      proof (cases "await v")
        case (Inl e)
        with Cons.prems p inv Return show ?thesis by auto
      next
        case (Inr u)
        show ?thesis
        proof (cases "truthy u")
          case False
          with Cons.prems p inv Return Inr
          have "resolve_within n body env ps acc s1 = Settled y" by simp
          from Cons.IH[OF this] p inv Return Inr False show ?thesis by simp
        next
          case True
          let ?in = "case u of VArr xs \<Rightarrow> xs | _ \<Rightarrow> [u]"
          note unf = resolve_within_flat[OF inv[unfolded Return] Inr True, of n sh ps acc]
          show ?thesis
          proof (cases "flatten_within n body env ?in s1")
            case (Pending s2)
            with Cons.prems(1) p unf show ?thesis by simp
          next
            case (Settled z)
            obtain r2 s2 where z: "z = (r2, s2)" by (cases z)
            from flatten_within_sound[OF Settled]
            have fl: "asyncFlattenIsolatedPlugin body env u s1 = Some (r2, s2)"
              by (simp add: z asyncFlattenIsolatedPlugin_def)
            show ?thesis
            proof (cases r2)
              case (Inl e)
              with Cons.prems(1) p unf Settled z fl inv Return Inr True show ?thesis by auto
            next
              case r2: (Inr fp)
              with Cons.prems(1) p unf Settled z
              have "resolve_within n body env ps (acc @ fp) s2 = Settled y" by simp
              from Cons.IH[OF this] p inv Return Inr True fl r2 show ?thesis by simp
            qed
          qed
        qed
      qed
    qed
  qed
qed

lemma resolve_within_complete:
  "resolve_from body env ps acc s = Some (r, s') \<Longrightarrow>
     \<exists>n. resolve_within n body env ps acc s = Settled (r, s')"
proof (induction rule: resolve_from_induct)
  case (finish acc s)
  then show ?case by simp
next
  case (throw f sh ps acc s e s1)
  then show ?case by simp
next
  case (reject f sh ps acc s v e s1)
  then show ?case by simp
next
  case (skip_falsy f sh ps acc s v u s1 r s')
  then show ?case by simp
next
  case (flat_fail f sh ps acc s v u s1 e s2)
  from flatten_within_complete[OF flat_fail(4)[unfolded asyncFlattenIsolatedPlugin_def]]
  obtain n where "flatten_within n body env (case u of VArr xs \<Rightarrow> xs | _ \<Rightarrow> [u]) s1 = Settled (Inl e, s2)"
    by blast
  with flat_fail(1-3) have "resolve_within n body env (VFun f sh # ps) acc s = Settled (Inl e, s2)"
    by simp
  then show ?case by blast
next
  case (flat f sh ps acc s v u s1 fp s2 r s')
  from flatten_within_complete[OF flat(4)[unfolded asyncFlattenIsolatedPlugin_def]]
  obtain n1 where n1: "flatten_within n1 body env (case u of VArr xs \<Rightarrow> xs | _ \<Rightarrow> [u]) s1 = Settled (Inr fp, s2)"
    by blast
  from flat.IH obtain n2 where n2: "resolve_within n2 body env ps (acc @ fp) s2 = Settled (r, s')"
    by blast
  from flatten_within_mono[OF n1, of "max n1 n2"] resolve_within_mono[OF n2, of "max n1 n2"] flat(1-3)
  have "resolve_within (max n1 n2) body env (VFun f sh # ps) acc s = Settled (r, s')" by simp
  then show ?case by blast
next
  case (plain p ps acc s r s')
  then show ?case by (simp add: resolve_within_other)
qed

lemma within_settles_iff:
  "resolveIsolatedPlugins body env s = Some y \<longleftrightarrow> (\<exists>n. resolveIsolatedPlugins_within n body env s = Settled y)"
  unfolding resolveIsolatedPlugins_def resolveIsolatedPlugins_within_def
  using resolve_within_sound resolve_within_complete[of body env _ _ s "fst y" "snd y"] by fastforce


lemma flatten_within_calls:
  "\<exists>new. invoked (reached (flatten_within n body env ps s)) = invoked s @ new
        \<and> (\<not> failure (flatten_within n body env ps s) \<longrightarrow> (\<forall>(f, e, out)\<in>set new. \<not> failed out))"
proof (induction n arbitrary: ps s)
  case 0
  then show ?case by simp
next
  case (Suc n)
  obtain r s1 where pass: "flatten_pass body env ps s = (r, s1)" by (cases "flatten_pass body env ps s")
  from flatten_pass_calls[OF pass] obtain n1 where n1: "invoked s1 = invoked s @ n1"
    "\<forall>ps'. r = Inr ps' \<longrightarrow> (\<forall>(f, e, out)\<in>set n1. \<not> failed out)" by blast
  show ?case
  proof (cases r)
    case (Inl e)
    with pass n1(1) show ?thesis by simp
  next
    case (Inr ps')
    with n1(2) have c1: "\<forall>(f, e, out)\<in>set n1. \<not> failed out" by simp
    show ?thesis
    proof (cases "loop_again ps'")
      case False
      with pass Inr n1(1) c1 show ?thesis by simp
    next
      case True
      with pass Inr have unf: "flatten_within (Suc n) body env ps s = flatten_within n body env ps' s1"
        by simp
      from Suc.IH[of ps' s1] obtain n2 where
        n2: "invoked (reached (flatten_within n body env ps' s1)) = invoked s1 @ n2"
        "\<not> failure (flatten_within n body env ps' s1) \<longrightarrow> (\<forall>(f, e, out)\<in>set n2. \<not> failed out)"
        by blast
      from n1(1) n2 c1 unf
      have "invoked (reached (flatten_within (Suc n) body env ps s)) = invoked s @ (n1 @ n2)
        \<and> (\<not> failure (flatten_within (Suc n) body env ps s) \<longrightarrow> (\<forall>(f, e, out)\<in>set (n1 @ n2). \<not> failed out))"
        by auto
      then show ?thesis by blast
    qed
  qed
qed

lemma resolve_within_calls:
  "\<exists>new. invoked (reached (resolve_within n body env ps acc s)) = invoked s @ new
        \<and> (\<not> failure (resolve_within n body env ps acc s) \<longrightarrow> (\<forall>(f, e, out)\<in>set new. \<not> failed out))"
proof (induction ps arbitrary: acc s)
  case Nil
  then show ?case by simp
next
  case (Cons p ps)
  show ?case
  proof (cases "is_function p")
    case False
    with Cons[of "acc @ [p]" s] show ?thesis by (simp add: resolve_within_other)
  next
    case True
    then obtain f sh where p: "p = VFun f sh" by (auto simp: is_function_iff)
    obtain out s1 where inv: "invoke body f env s = (out, s1)" by (cases "invoke body f env s")
    note h = invoke_heap[OF inv]
    show ?thesis
    proof (cases out)
      case (Throw e)
      with p inv h show ?thesis by simp
    next
      case (Return v)
      show ?thesis
      proof (cases "await v")
        case (Inl e)
        with p inv h Return show ?thesis by simp
      next
        case (Inr u)
        with Return have ok: "\<not> failed out" by simp
        show ?thesis
        proof (cases "truthy u")
          case False
          from Cons[of acc s1] obtain n2 where
            n2: "invoked (reached (resolve_within n body env ps acc s1)) = invoked s1 @ n2"
            "\<not> failure (resolve_within n body env ps acc s1) \<longrightarrow> (\<forall>(f, e, out)\<in>set n2. \<not> failed out)"
            by blast
          from resolve_within_skip[OF inv[unfolded Return] Inr False, of n sh ps acc] p h n2 ok
          have "invoked (reached (resolve_within n body env (p # ps) acc s)) = invoked s @ ((f, env, out) # n2)
            \<and> (\<not> failure (resolve_within n body env (p # ps) acc s)
                \<longrightarrow> (\<forall>(f, e, out)\<in>set ((f, env, out) # n2). \<not> failed out))"
            by auto
          then show ?thesis by blast
        next
          case True
          let ?in = "case u of VArr xs \<Rightarrow> xs | _ \<Rightarrow> [u]"
          note unf = resolve_within_flat[OF inv[unfolded Return] Inr True, of n sh ps acc]
          from flatten_within_calls[of n body env ?in s1] obtain n1 where
            n1: "invoked (reached (flatten_within n body env ?in s1)) = invoked s1 @ n1"
            "\<not> failure (flatten_within n body env ?in s1) \<longrightarrow> (\<forall>(f, e, out)\<in>set n1. \<not> failed out)"
            by blast
          show ?thesis
          proof (cases "flatten_within n body env ?in s1")
            case (Pending s2)
            with unf p h n1 ok
            have "invoked (reached (resolve_within n body env (p # ps) acc s)) = invoked s @ ((f, env, out) # n1)
              \<and> (\<not> failure (resolve_within n body env (p # ps) acc s)
                  \<longrightarrow> (\<forall>(f, e, out)\<in>set ((f, env, out) # n1). \<not> failed out))"
              by auto
            then show ?thesis by blast
          next
            case (Settled z)
            obtain r2 s2 where z: "z = (r2, s2)" by (cases z)
            show ?thesis
            proof (cases r2)
              case (Inl e)
              with unf p h n1 Settled z
              have "invoked (reached (resolve_within n body env (p # ps) acc s)) = invoked s @ ((f, env, out) # n1)
                \<and> (\<not> failure (resolve_within n body env (p # ps) acc s)
                    \<longrightarrow> (\<forall>(f, e, out)\<in>set ((f, env, out) # n1). \<not> failed out))"
                by auto
              then show ?thesis by blast
            next
              case r2: (Inr fp)
              from Cons[of "acc @ fp" s2] obtain n2 where
                n2: "invoked (reached (resolve_within n body env ps (acc @ fp) s2)) = invoked s2 @ n2"
                "\<not> failure (resolve_within n body env ps (acc @ fp) s2)
                   \<longrightarrow> (\<forall>(f, e, out)\<in>set n2. \<not> failed out)"
                by blast
              from unf p h n1 n2 Settled z r2 ok
              have "invoked (reached (resolve_within n body env (p # ps) acc s))
                      = invoked s @ ((f, env, out) # n1 @ n2)
                \<and> (\<not> failure (resolve_within n body env (p # ps) acc s)
                    \<longrightarrow> (\<forall>(f, e, out)\<in>set ((f, env, out) # n1 @ n2). \<not> failed out))"
                by auto
              then show ?thesis by blast
            qed
          qed
        qed
      qed
    qed
  qed
qed

text \<open>
  Claim C6. If a constructor invoked during resolution throws, or the promise it returns
  rejects, resolution fails as a whole: resolveIsolatedPlugins settles, and it settles with an
  error, which carries no list, neither the entries collected so far nor a truncated one. The
  invocation is one made within some number of passes of the run, whether or not the run is
  known to settle.
\<close>

theorem resolve_fails_as_a_whole:
  assumes "(f, e, out) \<in> set (calls_during s (reached (resolveIsolatedPlugins_within n body env s)))"
    and "failed out"
  shows "\<exists>err s'. resolveIsolatedPlugins body env s = Some (Inl err, s')"
proof -
  let ?p = "resolve_within n body env (config_plugins s) [] s"
  from resolve_within_calls[of n body env "config_plugins s" "[]" s] obtain new where
    new: "invoked (reached ?p) = invoked s @ new"
    "\<not> failure ?p \<longrightarrow> (\<forall>(f, e, out)\<in>set new. \<not> failed out)" by blast
  from calls_during_append[OF new(1)] assms(1) have "(f, e, out) \<in> set new"
    by (simp add: resolveIsolatedPlugins_within_def)
  with new(2) assms(2) have "failure ?p" by auto
  then obtain err s' where "?p = Settled (Inl err, s')" by (auto simp: failure_iff)
  from resolve_within_sound[OF this] show ?thesis by (auto simp: resolveIsolatedPlugins_def)
qed

theorem resolve_fails_as_a_whole_witness:
  "(1, client_env, Return (VRejected ''late''))
     \<in> set (calls_during \<lparr>config_plugins = [mk_plugin 0 ''d'', VFun 0 None], world = (), invoked = []\<rparr>
              (reached (resolveIsolatedPlugins_within 1 late_reject client_env
                 \<lparr>config_plugins = [mk_plugin 0 ''d'', VFun 0 None], world = (), invoked = []\<rparr>)))
   \<and> failed (Return (VRejected ''late''))
   \<and> resolveIsolatedPlugins late_reject client_env
        \<lparr>config_plugins = [mk_plugin 0 ''d'', VFun 0 None], world = (), invoked = []\<rparr>
     = Some (Inl ''late'',
             \<lparr>config_plugins = [mk_plugin 0 ''d'', VFun 0 None], world = (),
              invoked = [(0, client_env, Return (VArr [mk_plugin 1 ''a'', VFun 1 None])),
                         (1, client_env, Return (VRejected ''late''))]\<rparr>)"
proof -
  let ?s = "\<lparr>config_plugins = [mk_plugin 0 ''d'', VFun 0 None], world = (), invoked = []\<rparr>"
  have mem: "(1, client_env, Return (VRejected ''late''))
     \<in> set (calls_during ?s (reached (resolveIsolatedPlugins_within 1 late_reject client_env ?s)))"
    by (simp add: resolveIsolatedPlugins_within_def calls_during_def mk_plugin_def invoke_def
        late_reject_def flatten_pass_def loop_again_def)
  have bad: "failed (Return (VRejected ''late''))" by simp
  have run: "resolveIsolatedPlugins late_reject client_env ?s
     = Some (Inl ''late'',
             \<lparr>config_plugins = [mk_plugin 0 ''d'', VFun 0 None], world = (),
              invoked = [(0, client_env, Return (VArr [mk_plugin 1 ''a'', VFun 1 None])),
                         (1, client_env, Return (VRejected ''late''))]\<rparr>)"
    by (simp add: resolveIsolatedPlugins_def mk_plugin_def invoke_def late_reject_def
        asyncFlattenIsolatedPlugin_def flatten_loop.simps flatten_pass_def loop_again_def)
  from resolve_fails_as_a_whole[OF mem bad] obtain err s'
    where "resolveIsolatedPlugins late_reject client_env ?s = Some (Inl err, s')" by blast
  with mem bad run show ?thesis by simp
qed

section \<open>Determinism under pure constructors\<close>

lemma pure_invoke:
  "pure_constructors body \<Longrightarrow> fst (invoke body f env s) = fst (invoke body f env t)"
proof -
  assume "pure_constructors body"
  then have "fst (body f env (world s)) = fst (body f env (world t))"
    unfolding pure_constructors_def by blast
  then show ?thesis by (simp add: invoke_def case_prod_beta)
qed

lemma pure_map_call:
  "pure_constructors body \<Longrightarrow> fst (map_call body env ps s) = fst (map_call body env ps t)"
proof (induction ps arbitrary: s t)
  case Nil
  then show ?case by simp
next
  case (Cons p ps)
  show ?case
  proof (cases "is_function p")
    case True
    then obtain f sh where p: "p = VFun f sh" by (auto simp: is_function_iff)
    obtain o1 s1 where i1: "invoke body f env s = (o1, s1)" by (cases "invoke body f env s")
    obtain o2 t1 where i2: "invoke body f env t = (o2, t1)" by (cases "invoke body f env t")
    from pure_invoke[OF Cons.prems, of f env s t] i1 i2 have o: "o2 = o1" by simp
    from Cons.IH[OF Cons.prems, of s1 t1] p i1 i2 o show ?thesis
      by (cases o1) (auto split: prod.splits sum.splits)
  next
    case False
    with Cons.IH[OF Cons.prems, of s t] show ?thesis
      by (auto simp: map_call_other split: prod.splits sum.splits)
  qed
qed

lemma pure_flatten_pass:
  "pure_constructors body \<Longrightarrow> fst (flatten_pass body env ps s) = fst (flatten_pass body env ps t)"
  using pure_map_call[of body env ps s t]
  by (auto simp: flatten_pass_def split: prod.splits sum.splits)

lemma pure_flatten_loop:
  assumes "pure_constructors body" and "flatten_loop body env ps s = Some (r, s')"
  shows "\<exists>t'. flatten_loop body env ps t = Some (r, t')"
  using assms(2)
proof (induction arbitrary: t rule: flatten_loop_induct)
  case (fail ps s e s1)
  with pure_flatten_pass[OF assms(1), of env ps s t] show ?case
    by (subst flatten_loop.simps) (auto split: prod.splits sum.splits)
next
  case (stop ps s ps' s1)
  with pure_flatten_pass[OF assms(1), of env ps s t] show ?case
    by (subst flatten_loop.simps) (auto split: prod.splits sum.splits)
next
  case (again ps s ps' s1 r s')
  obtain r1 t1 where p: "flatten_pass body env ps t = (r1, t1)" by (cases "flatten_pass body env ps t")
  with pure_flatten_pass[OF assms(1), of env ps s t] again(1) have r1: "r1 = Inr ps'" by simp
  from again.IH[of t1] obtain t' where "flatten_loop body env ps' t1 = Some (r, t')" by blast
  with p r1 again(2) show ?case by (subst flatten_loop.simps) simp
qed

lemma pure_asyncFlatten:
  "pure_constructors body \<Longrightarrow> asyncFlattenIsolatedPlugin body env v s = Some (r, s')
     \<Longrightarrow> \<exists>t'. asyncFlattenIsolatedPlugin body env v t = Some (r, t')"
  unfolding asyncFlattenIsolatedPlugin_def by (rule pure_flatten_loop)

lemma pure_resolve_from:
  assumes "pure_constructors body" and "resolve_from body env ps acc s = Some (r, s')"
  shows "\<exists>t'. resolve_from body env ps acc t = Some (r, t')"
  using assms(2)
proof (induction arbitrary: t rule: resolve_from_induct)
  case (finish acc s)
  then show ?case by simp
next
  case (throw f sh ps acc s e s1)
  with pure_invoke[OF assms(1), of f env s t] show ?case
    by (cases "invoke body f env t") auto
next
  case (reject f sh ps acc s v e s1)
  with pure_invoke[OF assms(1), of f env s t] show ?case
    by (cases "invoke body f env t") auto
next
  case (skip_falsy f sh ps acc s v u s1 r s')
  obtain o2 t1 where i2: "invoke body f env t = (o2, t1)" by (cases "invoke body f env t")
  with pure_invoke[OF assms(1), of f env s t] skip_falsy(1) have "o2 = Return v" by simp
  with i2 skip_falsy(2,3) skip_falsy.IH[of t1] show ?case by simp
next
  case (flat_fail f sh ps acc s v u s1 e s2)
  obtain o2 t1 where i2: "invoke body f env t = (o2, t1)" by (cases "invoke body f env t")
  with pure_invoke[OF assms(1), of f env s t] flat_fail(1) have o2: "o2 = Return v" by simp
  from pure_asyncFlatten[OF assms(1) flat_fail(4), of t1] obtain t2
    where "asyncFlattenIsolatedPlugin body env u t1 = Some (Inl e, t2)" by blast
  with i2 o2 flat_fail(2,3) show ?case by simp
next
  case (flat f sh ps acc s v u s1 fp s2 r s')
  obtain o2 t1 where i2: "invoke body f env t = (o2, t1)" by (cases "invoke body f env t")
  with pure_invoke[OF assms(1), of f env s t] flat(1) have o2: "o2 = Return v" by simp
  from pure_asyncFlatten[OF assms(1) flat(4), of t1] obtain t2
    where "asyncFlattenIsolatedPlugin body env u t1 = Some (Inr fp, t2)" by blast
  with i2 o2 flat(2,3) flat.IH[of t2] show ?case by simp
next
  case (plain p ps acc s r s')
  from plain.IH[of t] plain(1) show ?case by (simp add: resolve_from_other)
qed

lemma pure_nest_body: "pure_constructors nest_body"
  by (simp add: pure_constructors_def nest_body_def)

text \<open>
  Claim C7. When the constructors are pure, two runs of resolveIsolatedPlugins on identical
  inputs (the same environment and the same config list) give the identical outcome: the same
  plugins in the same order, the same error, or neither run settles.
\<close>

theorem resolve_deterministic:
  assumes "pure_constructors body" and "config_plugins t = config_plugins s"
  shows "map_option fst (resolveIsolatedPlugins body env t)
       = map_option fst (resolveIsolatedPlugins body env s)"
proof (cases "resolve_from body env (config_plugins s) [] s")
  case None
  have "resolve_from body env (config_plugins s) [] t = None"
  proof (rule ccontr)
    assume "resolve_from body env (config_plugins s) [] t \<noteq> None"
    then obtain r t' where "resolve_from body env (config_plugins s) [] t = Some (r, t')" by auto
    from pure_resolve_from[OF assms(1) this, of s] None show False by simp
  qed
  with None assms(2) show ?thesis by (simp add: resolveIsolatedPlugins_def)
next
  case (Some y)
  then obtain r s' where "resolve_from body env (config_plugins s) [] s = Some (r, s')"
    by (cases y) auto
  with pure_resolve_from[OF assms(1) this, of t] assms(2) show ?thesis
    by (auto simp: resolveIsolatedPlugins_def)
qed

theorem resolve_deterministic_witness:
  "pure_constructors nest_body
   \<and> config_plugins \<lparr>config_plugins = [mk_plugin 1 ''D0'', VFun 0 None], world = (),
                      invoked = [(5, ssr_env, Throw ''old'')]\<rparr>
     = config_plugins \<lparr>config_plugins = [mk_plugin 1 ''D0'', VFun 0 None], world = (), invoked = []\<rparr>
   \<and> map_option fst (resolveIsolatedPlugins nest_body client_env
         \<lparr>config_plugins = [mk_plugin 1 ''D0'', VFun 0 None], world = (),
          invoked = [(5, ssr_env, Throw ''old'')]\<rparr>)
     = Some (Inr [mk_plugin 1 ''D0'', mk_plugin 2 ''D'', mk_plugin 3 ''G''])"
proof -
  let ?s = "\<lparr>config_plugins = [mk_plugin 1 ''D0'', VFun 0 None], world = (), invoked = []\<rparr>"
  let ?t = "\<lparr>config_plugins = [mk_plugin 1 ''D0'', VFun 0 None], world = (),
             invoked = [(5, ssr_env, Throw ''old'')]\<rparr>"
  have cfg: "config_plugins ?t = config_plugins ?s" by simp
  have run: "map_option fst (resolveIsolatedPlugins nest_body client_env ?s)
             = Some (Inr [mk_plugin 1 ''D0'', mk_plugin 2 ''D'', mk_plugin 3 ''G''])"
    by (simp add: resolveIsolatedPlugins_def mk_plugin_def invoke_def nest_body_def
        asyncFlattenIsolatedPlugin_def flatten_loop.simps flatten_pass_def loop_again_def)
  from resolve_deterministic[OF pure_nest_body cfg, of client_env] run pure_nest_body cfg
  show ?thesis by simp
qed

text \<open>In particular a second run, started in the heap the first one left, repeats its result.\<close>

lemma resolve_twice:
  assumes "pure_constructors body" and "resolveIsolatedPlugins body env s = Some (r, s1)"
  shows "\<exists>s2. resolveIsolatedPlugins body env s1 = Some (r, s2)"
proof -
  from assms(2) have "config_plugins s1 = config_plugins s"
    unfolding resolveIsolatedPlugins_def by (rule resolve_from_config)
  with pure_resolve_from[OF assms(1) assms(2)[unfolded resolveIsolatedPlugins_def], of s1]
  show ?thesis by (simp add: resolveIsolatedPlugins_def)
qed

section \<open>How often a constructor is invoked\<close>

lemma occs_simps [simp]:
  "occs f [] = 0" "occs f (x # xs) = occ f x + occs f xs" "occs f (xs @ ys) = occs f xs + occs f ys"
  by (simp_all add: occs_def)

lemma occs_fold [simp]: "sum_list (map (occ f) xs) = occs f xs"
  by (simp add: occs_def)

lemma calls_of_simps [simp]:
  "calls_of f env [] = 0"
  "calls_of f env ((g, e, out) # cs) = (if g = f \<and> e = env then 1 else 0) + calls_of f env cs"
  "calls_of f env (cs @ ds) = calls_of f env cs + calls_of f env ds"
  by (simp_all add: calls_of_def)

lemma returned_occ_simps [simp]:
  "returned_occ f [] = 0"
  "returned_occ f (c # cs) = returned f c + returned_occ f cs"
  "returned_occ f (cs @ ds) = returned_occ f cs + returned_occ f ds"
  by (simp_all add: returned_occ_def)

lemma occ_await: "await x = Inr v \<Longrightarrow> occ f v = occ f x"
  by (induction x rule: await.induct) auto

lemma occs_promise_all: "promise_all rs = Inr vs \<Longrightarrow> occs f vs = occs f rs"
  by (induction rs arbitrary: vs) (auto split: sum.splits dest: occ_await)

lemma occs_flat_inf: "occs f (flat_inf xs) = occs f xs"
  by (induction xs rule: flat_inf.induct) auto

lemma occ_falsy: "\<not> truthy x \<Longrightarrow> occ f x = 0"
  by (cases x) auto

lemma occs_filter_truthy: "occs f (filter truthy xs) = occs f xs"
  by (induction xs) (auto simp: occ_falsy)

lemma occs_input: "occs f (case u of VArr xs \<Rightarrow> xs | _ \<Rightarrow> [u]) = occ f u"
  by (cases u) auto

lemma map_call_count:
  "map_call body env ps s = (r, s1) \<Longrightarrow>
     \<exists>new. invoked s1 = invoked s @ new \<and>
       (case r of
          Inr rs \<Rightarrow> calls_of f env new + occs f rs = occs f ps + returned_occ f new
        | Inl e \<Rightarrow> calls_of f env new \<le> occs f ps + returned_occ f new)"
proof (induction ps arbitrary: r s s1)
  case Nil
  then show ?case by auto
next
  case (Cons p ps)
  show ?case
  proof (cases "is_function p")
    case True
    then obtain g sh where p: "p = VFun g sh" by (auto simp: is_function_iff)
    obtain out t where inv: "invoke body g env s = (out, t)" by (cases "invoke body g env s")
    note h = invoke_heap[OF inv]
    show ?thesis
    proof (cases out)
      case (Throw e)
      with Cons.prems p inv have "r = Inl e" "s1 = t" by auto
      with h Throw p have "invoked s1 = invoked s @ [(g, env, Throw e)] \<and>
        (case r of
          Inr rs \<Rightarrow> calls_of f env [(g, env, Throw e)] + occs f rs
                    = occs f (p # ps) + returned_occ f [(g, env, Throw e)]
        | Inl e' \<Rightarrow> calls_of f env [(g, env, Throw e)]
                    \<le> occs f (p # ps) + returned_occ f [(g, env, Throw e)])" by simp
      then show ?thesis by blast
    next
      case (Return v)
      obtain r2 t2 where rest: "map_call body env ps t = (r2, t2)" by (cases "map_call body env ps t")
      from Cons.IH[OF rest] obtain new where new: "invoked t2 = invoked t @ new"
        "case r2 of
          Inr rs \<Rightarrow> calls_of f env new + occs f rs = occs f ps + returned_occ f new
        | Inl e \<Rightarrow> calls_of f env new \<le> occs f ps + returned_occ f new" by blast
      from Cons.prems p inv rest Return
      have r: "r = (case r2 of Inl e \<Rightarrow> Inl e | Inr rs \<Rightarrow> Inr (v # rs))" and s1: "s1 = t2"
        by (auto split: sum.splits)
      from h new(1) s1 Return have tr: "invoked s1 = invoked s @ ((g, env, Return v) # new)" by simp
      from r new(2) p have "case r of
          Inr rs \<Rightarrow> calls_of f env ((g, env, Return v) # new) + occs f rs
                    = occs f (p # ps) + returned_occ f ((g, env, Return v) # new)
        | Inl e \<Rightarrow> calls_of f env ((g, env, Return v) # new)
                    \<le> occs f (p # ps) + returned_occ f ((g, env, Return v) # new)"
        by (cases r2) auto
      with tr show ?thesis by blast
    qed
  next
    case False
    obtain r2 t2 where rest: "map_call body env ps s = (r2, t2)" by (cases "map_call body env ps s")
    from Cons.IH[OF rest] obtain new where new: "invoked t2 = invoked s @ new"
      "case r2 of
          Inr rs \<Rightarrow> calls_of f env new + occs f rs = occs f ps + returned_occ f new
        | Inl e \<Rightarrow> calls_of f env new \<le> occs f ps + returned_occ f new" by blast
    from Cons.prems False rest
    have r: "r = (case r2 of Inl e \<Rightarrow> Inl e | Inr rs \<Rightarrow> Inr (p # rs))" and s1: "s1 = t2"
      by (auto simp: map_call_other split: sum.splits)
    from r new(2) have "case r of
          Inr rs \<Rightarrow> calls_of f env new + occs f rs = occs f (p # ps) + returned_occ f new
        | Inl e \<Rightarrow> calls_of f env new \<le> occs f (p # ps) + returned_occ f new"
      by (cases r2) auto
    with new(1) s1 show ?thesis by blast
  qed
qed

lemma flatten_pass_count:
  assumes "flatten_pass body env ps s = (r, s1)"
  shows "\<exists>new. invoked s1 = invoked s @ new \<and>
       (case r of
          Inr ps' \<Rightarrow> calls_of f env new + occs f ps' = occs f ps + returned_occ f new
        | Inl e \<Rightarrow> calls_of f env new \<le> occs f ps + returned_occ f new)"
proof -
  obtain r0 t where mc: "map_call body env ps s = (r0, t)" by (cases "map_call body env ps s")
  from map_call_count[OF mc, of f] obtain new where new: "invoked t = invoked s @ new"
    "case r0 of
          Inr rs \<Rightarrow> calls_of f env new + occs f rs = occs f ps + returned_occ f new
        | Inl e \<Rightarrow> calls_of f env new \<le> occs f ps + returned_occ f new" by blast
  from assms mc have s1: "s1 = t" by (auto simp: flatten_pass_def split: sum.splits)
  have "case r of
          Inr ps' \<Rightarrow> calls_of f env new + occs f ps' = occs f ps + returned_occ f new
        | Inl e \<Rightarrow> calls_of f env new \<le> occs f ps + returned_occ f new"
  proof (cases r0)
    case (Inl e)
    with assms mc new(2) show ?thesis by (auto simp: flatten_pass_def)
  next
    case (Inr rs)
    show ?thesis
    proof (cases "promise_all rs")
      case (Inl e)
      with assms mc Inr have "r = Inl e" by (simp add: flatten_pass_def)
      with new(2) Inr show ?thesis by simp
    next
      case vs: (Inr vs)
      with assms mc Inr have "r = Inr (filter truthy (flat_inf vs))" by (auto simp: flatten_pass_def)
      with new(2) Inr occs_promise_all[OF vs, of f] show ?thesis
        by (simp add: occs_filter_truthy occs_flat_inf)
    qed
  qed
  with new(1) s1 show ?thesis by blast
qed

lemma flatten_loop_count:
  "flatten_loop body env ps s = Some (r, s') \<Longrightarrow>
     \<exists>new. invoked s' = invoked s @ new \<and> calls_of f env new \<le> occs f ps + returned_occ f new"
proof (induction rule: flatten_loop_induct)
  case (fail ps s e s1)
  from flatten_pass_count[OF this, of f] show ?case by auto
next
  case (stop ps s ps' s1)
  from flatten_pass_count[OF stop(1), of f] obtain new where
    "invoked s1 = invoked s @ new" "calls_of f env new + occs f ps' = occs f ps + returned_occ f new"
    by auto
  then have "invoked s1 = invoked s @ new \<and> calls_of f env new \<le> occs f ps + returned_occ f new"
    by linarith
  then show ?case by blast
next
  case (again ps s ps' s1 r s')
  from flatten_pass_count[OF again(1), of f] obtain n1 where n1:
    "invoked s1 = invoked s @ n1" "calls_of f env n1 + occs f ps' = occs f ps + returned_occ f n1"
    by auto
  from again.IH obtain n2 where n2: "invoked s' = invoked s1 @ n2"
    "calls_of f env n2 \<le> occs f ps' + returned_occ f n2" by blast
  from n1 n2 have "invoked s' = invoked s @ (n1 @ n2)
     \<and> calls_of f env (n1 @ n2) \<le> occs f ps + returned_occ f (n1 @ n2)" by simp
  then show ?case by blast
qed

lemma resolve_from_count:
  "resolve_from body env ps acc s = Some (r, s') \<Longrightarrow>
     \<exists>new. invoked s' = invoked s @ new \<and> calls_of f env new \<le> occs f ps + returned_occ f new"
proof (induction rule: resolve_from_induct)
  case (finish acc s)
  then show ?case by simp
next
  case (throw g sh ps acc s e s1)
  from invoke_heap[OF this]
  have "invoked s1 = invoked s @ [(g, env, Throw e)] \<and>
        calls_of f env [(g, env, Throw e)] \<le> occs f (VFun g sh # ps) + returned_occ f [(g, env, Throw e)]"
    by simp
  then show ?case by blast
next
  case (reject g sh ps acc s v e s1)
  from invoke_heap[OF reject(1)]
  have "invoked s1 = invoked s @ [(g, env, Return v)] \<and>
        calls_of f env [(g, env, Return v)] \<le> occs f (VFun g sh # ps) + returned_occ f [(g, env, Return v)]"
    by simp
  then show ?case by blast
next
  case (skip_falsy g sh ps acc s v u s1 r s')
  from skip_falsy.IH obtain n2 where n2: "invoked s' = invoked s1 @ n2"
    "calls_of f env n2 \<le> occs f ps + returned_occ f n2" by blast
  from invoke_heap[OF skip_falsy(1)] n2
  have "invoked s' = invoked s @ ((g, env, Return v) # n2) \<and>
        calls_of f env ((g, env, Return v) # n2)
          \<le> occs f (VFun g sh # ps) + returned_occ f ((g, env, Return v) # n2)"
    by simp
  then show ?case by blast
next
  case (flat_fail g sh ps acc s v u s1 e s2)
  from flatten_loop_count[OF flat_fail(4)[unfolded asyncFlattenIsolatedPlugin_def], of f]
  obtain n1 where n1: "invoked s2 = invoked s1 @ n1"
    "calls_of f env n1 \<le> occ f u + returned_occ f n1" by (auto simp: occs_input)
  from invoke_heap[OF flat_fail(1)] n1 occ_await[OF flat_fail(2), of f]
  have "invoked s2 = invoked s @ ((g, env, Return v) # n1) \<and>
        calls_of f env ((g, env, Return v) # n1)
          \<le> occs f (VFun g sh # ps) + returned_occ f ((g, env, Return v) # n1)"
    by simp
  then show ?case by blast
next
  case (flat g sh ps acc s v u s1 fp s2 r s')
  from flatten_loop_count[OF flat(4)[unfolded asyncFlattenIsolatedPlugin_def], of f]
  obtain n1 where n1: "invoked s2 = invoked s1 @ n1"
    "calls_of f env n1 \<le> occ f u + returned_occ f n1" by (auto simp: occs_input)
  from flat.IH obtain n2 where n2: "invoked s' = invoked s2 @ n2"
    "calls_of f env n2 \<le> occs f ps + returned_occ f n2" by blast
  from invoke_heap[OF flat(1)] n1 n2 occ_await[OF flat(2), of f]
  have "invoked s' = invoked s @ ((g, env, Return v) # n1 @ n2) \<and>
        calls_of f env ((g, env, Return v) # n1 @ n2)
          \<le> occs f (VFun g sh # ps) + returned_occ f ((g, env, Return v) # n1 @ n2)"
    by simp
  then show ?case by blast
next
  case (plain p ps acc s r s')
  then obtain new where "invoked s' = invoked s @ new"
    "calls_of f env new \<le> occs f ps + returned_occ f new" by blast
  then have "invoked s' = invoked s @ new \<and> calls_of f env new \<le> occs f (p # ps) + returned_occ f new"
    by simp
  then show ?case by blast
qed

text \<open>
  Claim C8, as stated: in one resolution pass each constructor function of the tree is invoked
  at most once with the environment. A function that is listed twice is invoked twice.
\<close>

theorem invoked_twice_counterexample:
  "resolveIsolatedPlugins nest_body client_env
     \<lparr>config_plugins = [VFun 1 None, VFun 1 None], world = (), invoked = []\<rparr>
   = Some (Inr [mk_plugin 3 ''G'', mk_plugin 3 ''G''],
           \<lparr>config_plugins = [VFun 1 None, VFun 1 None], world = (),
            invoked = [(1, client_env, Return (VArr [mk_plugin 3 ''G''])),
                       (1, client_env, Return (VArr [mk_plugin 3 ''G'']))]\<rparr>)
   \<and> calls_of 1 client_env
        (calls_during \<lparr>config_plugins = [VFun 1 None, VFun 1 None], world = (), invoked = []\<rparr>
           \<lparr>config_plugins = [VFun 1 None, VFun 1 None], world = (),
            invoked = [(1, client_env, Return (VArr [mk_plugin 3 ''G''])),
                       (1, client_env, Return (VArr [mk_plugin 3 ''G'']))]\<rparr>) = 2"
  by (simp add: resolveIsolatedPlugins_def mk_plugin_def invoke_def nest_body_def calls_during_def
      asyncFlattenIsolatedPlugin_def flatten_loop.simps flatten_pass_def loop_again_def)

text \<open>
  Claim C8, amended. In one resolution pass every occurrence of a constructor function is
  invoked at most once: a function is invoked with the environment at most as many times as it
  occurs in the top-level list and in the values returned by the constructors invoked in the
  pass.
\<close>

theorem each_occurrence_invoked_at_most_once:
  assumes "resolveIsolatedPlugins body env s = Some (r, s')"
  shows "calls_of f env (calls_during s s')
           \<le> occs f (config_plugins s) + returned_occ f (calls_during s s')"
proof -
  from resolve_from_count[OF assms[unfolded resolveIsolatedPlugins_def], of f]
  obtain new where new: "invoked s' = invoked s @ new"
    "calls_of f env new \<le> occs f (config_plugins s) + returned_occ f new" by blast
  from calls_during_append[OF new(1)] new(2) show ?thesis by simp
qed

theorem each_occurrence_invoked_at_most_once_witness:
  "resolveIsolatedPlugins nest_body client_env
     \<lparr>config_plugins = [VFun 0 None], world = (), invoked = []\<rparr>
   = Some (Inr [mk_plugin 2 ''D'', mk_plugin 3 ''G''],
           \<lparr>config_plugins = [VFun 0 None], world = (),
            invoked = [(0, client_env, Return (VPromise (VArr [mk_plugin 2 ''D'', VFun 1 None]))),
                       (1, client_env, Return (VArr [mk_plugin 3 ''G'']))]\<rparr>)
   \<and> calls_of 1 client_env
        (calls_during \<lparr>config_plugins = [VFun 0 None], world = (), invoked = []\<rparr>
           \<lparr>config_plugins = [VFun 0 None], world = (),
            invoked = [(0, client_env, Return (VPromise (VArr [mk_plugin 2 ''D'', VFun 1 None]))),
                       (1, client_env, Return (VArr [mk_plugin 3 ''G'']))]\<rparr>)
       \<le> occs 1 (config_plugins \<lparr>config_plugins = [VFun 0 None], world = (), invoked = []\<rparr>)
         + returned_occ 1
            (calls_during \<lparr>config_plugins = [VFun 0 None], world = (), invoked = []\<rparr>
               \<lparr>config_plugins = [VFun 0 None], world = (),
                invoked = [(0, client_env, Return (VPromise (VArr [mk_plugin 2 ''D'', VFun 1 None]))),
                           (1, client_env, Return (VArr [mk_plugin 3 ''G'']))]\<rparr>)"
proof -
  let ?s = "\<lparr>config_plugins = [VFun 0 None], world = (), invoked = []\<rparr>"
  let ?s' = "\<lparr>config_plugins = [VFun 0 None], world = (),
            invoked = [(0, client_env, Return (VPromise (VArr [mk_plugin 2 ''D'', VFun 1 None]))),
                       (1, client_env, Return (VArr [mk_plugin 3 ''G'']))]\<rparr>"
  have run: "resolveIsolatedPlugins nest_body client_env ?s
             = Some (Inr [mk_plugin 2 ''D'', mk_plugin 3 ''G''], ?s')"
    by (simp add: resolveIsolatedPlugins_def mk_plugin_def invoke_def nest_body_def
        asyncFlattenIsolatedPlugin_def flatten_loop.simps flatten_pass_def loop_again_def)
  from each_occurrence_invoked_at_most_once[OF run, of 1] run show ?thesis by simp
qed

section \<open>The sharedDuringBuild flag\<close>











lemma runs_of_append [simp]: "runs_of f (xs @ ys) = runs_of f xs + runs_of f ys"
  by (simp add: runs_of_def)














section \<open>The config list is only read\<close>

text \<open>
  Claim C10. resolveIsolatedPlugins never mutates its input: when the call has completed,
  with a list or with a failure, \<^verbatim>\<open>environment.config.plugins\<close> holds the same
  entries in the same order as before the call.
\<close>

theorem resolve_preserves_config:
  "resolveIsolatedPlugins body env s = Some (r, s') \<Longrightarrow> config_plugins s' = config_plugins s"
  unfolding resolveIsolatedPlugins_def by (rule resolve_from_config)

theorem resolve_preserves_config_witness:
  "resolveIsolatedPlugins fresh_ctor client_env
     \<lparr>config_plugins = [mk_plugin 7 ''a'', VFun 0 None], world = 0, invoked = []\<rparr>
   = Some (Inr [mk_plugin 7 ''a'',
                VPlugin \<lparr>ident = 0, plugin_name = ''made'', sharedDuringBuild = Some True\<rparr>],
           \<lparr>config_plugins = [mk_plugin 7 ''a'', VFun 0 None], world = Suc 0,
            invoked = [(0, client_env, Return (VPlugin \<lparr>ident = 0, plugin_name = ''made'',
                                                       sharedDuringBuild = Some True\<rparr>))]\<rparr>)
   \<and> config_plugins \<lparr>config_plugins = [mk_plugin 7 ''a'', VFun 0 None], world = Suc 0,
            invoked = [(0, client_env, Return (VPlugin \<lparr>ident = 0, plugin_name = ''made'',
                                                       sharedDuringBuild = Some True\<rparr>))]\<rparr>
       = config_plugins \<lparr>config_plugins = [mk_plugin 7 ''a'', VFun 0 None], world = (0::nat), invoked = []\<rparr>"
proof -
  have run: "resolveIsolatedPlugins fresh_ctor client_env
       \<lparr>config_plugins = [mk_plugin 7 ''a'', VFun 0 None], world = 0, invoked = []\<rparr>
     = Some (Inr [mk_plugin 7 ''a'',
                VPlugin \<lparr>ident = 0, plugin_name = ''made'', sharedDuringBuild = Some True\<rparr>],
           \<lparr>config_plugins = [mk_plugin 7 ''a'', VFun 0 None], world = Suc 0,
            invoked = [(0, client_env, Return (VPlugin \<lparr>ident = 0, plugin_name = ''made'',
                                                       sharedDuringBuild = Some True\<rparr>))]\<rparr>)"
    by (simp add: resolveIsolatedPlugins_def mk_plugin_def invoke_def fresh_ctor_def
        asyncFlattenIsolatedPlugin_def flatten_loop.simps flatten_pass_def loop_again_def)
  from resolve_preserves_config[OF run] run show ?thesis by simp
qed

end
